theory Spec2Isabelle
  imports Main "HOL-Library.List_Lexorder"
begin

section \<open>Text\<close>

text \<open>
  A Python \<open>str\<close> is a sequence of Unicode code points. A code point is modelled by its
  number, a text by the list of its code points; \<open>str\<close> turns an Isabelle string literal
  into such a list. Lists of numbers are ordered lexicographically (a proper prefix comes
  first), which is the order in which Python compares and sorts strings.
\<close>

type_synonym pystr = "nat list"

abbreviation ord :: "char \<Rightarrow> nat" where
  "ord \<equiv> of_char"

definition str :: "string \<Rightarrow> pystr" where
  "str cs = map ord cs"

text \<open>
  The white space of the regular-expression class \<open>\s\<close> on a \<open>str\<close> pattern: the code
  points for which \<open>str.isspace\<close> holds.
\<close>

definition isspace :: "nat \<Rightarrow> bool" where
  "isspace c =
     ((9 \<le> c \<and> c \<le> 13) \<or> (28 \<le> c \<and> c \<le> 32) \<or> c = 133 \<or> c = 160 \<or> c = 5760 \<or>
      (8192 \<le> c \<and> c \<le> 8202) \<or> c = 8232 \<or> c = 8233 \<or> c = 8239 \<or> c = 8287 \<or>
      c = 12288)"

section \<open>Errors\<close>

text \<open>
  The exceptions that can leave \<open>KeywordProcessor\<close>. A \<open>TypeError\<close> carries the place
  that raises it: \<open>InvalidValue\<close> is the one \<open>split\<close> raises itself on a value that is
  not a \<open>str\<close>; \<open>InRequiresString\<close> is \<open>None in groups\<close> on a \<open>str\<close>;
  \<open>NotIterable\<close> is \<open>list(None)\<close>; \<open>NotCallable\<close> is a call of \<open>True\<close>;
  \<open>Unhashable\<close> is \<open>set\<close> applied to a list of lists. \<open>IndexError\<close> is \<open>i[0]\<close> on
  an empty term, \<open>KeyError\<close> a missing key, \<open>ReError\<close> is \<open>re.error\<close>, and
  \<open>NormalizationError\<close> stands for whatever the caller's \<open>normalize\<close> raises.

  \<open>Unsupported\<close> is not an exception of the program: it marks a pattern that uses
  regular-expression syntax outside the fragment modelled below. Nothing is stated about
  such a pattern.
\<close>

datatype type_error = InvalidValue | InRequiresString | NotIterable | NotCallable | Unhashable

datatype error =
  TypeError type_error | IndexError | KeyError | ReError | NormalizationError | Unsupported

section \<open>The regular expressions of the module \<open>re\<close>: a fragment\<close>

text \<open>
  \<open>KeywordProcessor\<close> leaves the tokenising to one compiled regular expression. The
  fragment of the pattern language that its patterns are written in is modelled here: a
  sequence of single-character items (a literal, or a set \<open>[...]\<close> with literals, ranges
  and \<open>\s\<close>, possibly negated), each one possibly repeated by a greedy \<open>*\<close>, \<open>+\<close> or
  \<open>?\<close>, around exactly one capturing group whose body is an alternation of such
  sequences.
\<close>

datatype setitem = SLit nat | SRange nat nat | SSpace

datatype atom = Lit nat | In bool "setitem list"

datatype item = One atom | Star atom | Plus atom | Opt atom

record re_pattern =
  pre :: "item list"
  alts :: "item list list"
  post :: "item list"

subsection \<open>Parsing a pattern\<close>

text \<open>
  The characters with a meaning in a pattern, by their code points.
\<close>

abbreviation BSLASH :: nat where "BSLASH \<equiv> 92"
abbreviation LBRACK :: nat where "LBRACK \<equiv> 91"
abbreviation RBRACK :: nat where "RBRACK \<equiv> 93"
abbreviation LPAREN :: nat where "LPAREN \<equiv> 40"
abbreviation RPAREN :: nat where "RPAREN \<equiv> 41"
abbreviation LBRACE :: nat where "LBRACE \<equiv> 123"
abbreviation CARET :: nat where "CARET \<equiv> 94"
abbreviation DOLLAR :: nat where "DOLLAR \<equiv> 36"
abbreviation DASH :: nat where "DASH \<equiv> 45"
abbreviation DOT :: nat where "DOT \<equiv> 46"
abbreviation BAR :: nat where "BAR \<equiv> 124"
abbreviation STAR :: nat where "STAR \<equiv> 42"
abbreviation PLUS :: nat where "PLUS \<equiv> 43"
abbreviation QMARK :: nat where "QMARK \<equiv> 63"
abbreviation LOWER_S :: nat where "LOWER_S \<equiv> 115"

text \<open>
  One member of a set: a character standing for itself, or the class escape \<open>\s\<close>. Any
  other escape is outside the fragment; a backslash that ends the pattern is an error.
\<close>

definition class_code :: "nat \<Rightarrow> pystr \<Rightarrow> error + (setitem \<times> pystr)" where
  "class_code c cs =
     (if c = BSLASH then
        (case cs of
           [] \<Rightarrow> Inl ReError
         | e # r \<Rightarrow> if e = LOWER_S then Inr (SSpace, r) else Inl Unsupported)
      else Inr (SLit c, cs))"

lemma class_code_length:
  "class_code c cs = Inr (x, r) \<Longrightarrow> length r \<le> length cs"
  by (auto simp: class_code_def split: if_splits list.splits)

text \<open>
  The members of a set, read after \<open>[\<close> or \<open>[^\<close> up to the closing \<open>]\<close>. A \<open>]\<close>
  closes the set only when a member has been read; \<open>-\<close> after a member makes a range
  unless \<open>]\<close> follows it; a range needs two literals in ascending order. The pattern
  ending inside the set is an error (unterminated character set).
\<close>

function parse_set_items :: "setitem list \<Rightarrow> pystr \<Rightarrow> error + (setitem list \<times> pystr)" where
  "parse_set_items acc [] = Inl ReError"
| "parse_set_items acc (c # cs) =
     (if c = RBRACK \<and> acc \<noteq> [] then Inr (acc, cs)
      else
        (case class_code c cs of
           Inl e \<Rightarrow> Inl e
         | Inr (code1, r) \<Rightarrow>
             (case r of
                [] \<Rightarrow> Inl ReError
              | d # r2 \<Rightarrow>
                  if d = DASH then
                    (case r2 of
                       [] \<Rightarrow> Inl ReError
                     | t # r3 \<Rightarrow>
                         if t = RBRACK then Inr (acc @ [code1, SLit DASH], r3)
                         else
                           (case class_code t r3 of
                              Inl e \<Rightarrow> Inl e
                            | Inr (code2, r4) \<Rightarrow>
                                (case code1 of
                                   SLit lo \<Rightarrow>
                                     (case code2 of
                                        SLit hi \<Rightarrow>
                                          if hi < lo then Inl ReError
                                          else parse_set_items (acc @ [SRange lo hi]) r4
                                      | _ \<Rightarrow> Inl ReError)
                                 | _ \<Rightarrow> Inl ReError)))
                  else parse_set_items (acc @ [code1]) r)))"
  by pat_completeness auto
termination
proof (relation "measure (\<lambda>(acc, s). length s)", goal_cases)
  case 1
  show ?case by simp
next
  case (2 acc c cs x code1 r d r2 t r3 y code2 r4 lo hi)
  then show ?case
    using class_code_length [of c cs code1 r] class_code_length [of t r3 code2 r4]
    by simp
next
  case (3 acc c cs x code1 r d r2)
  then show ?case
    using class_code_length [of c cs code1 r] by simp
qed

declare parse_set_items.simps(2) [simp del]

lemma parse_set_items_length:
  "parse_set_items acc s = Inr (x, r) \<Longrightarrow> length r < length s"
proof (induction acc s arbitrary: x r rule: parse_set_items.induct)
  case (1 acc)
  then show ?case by simp
next
  case (2 acc c cs)
  note eq = "2.prems" [unfolded parse_set_items.simps(2) [of acc c cs]]
  show ?case
  proof (cases "c = RBRACK \<and> acc \<noteq> []")
    case True
    with eq show ?thesis by auto
  next
    case False
    with eq obtain code1 r1 where c1: "class_code c cs = Inr (code1, r1)"
      by (auto split: sum.splits)
    with eq False obtain d r2 where r1: "r1 = d # r2"
      by (auto split: list.splits)
    have l1: "length r1 \<le> length cs" using c1 by (rule class_code_length)
    show ?thesis
    proof (cases "d = DASH")
      case nodash: False
      with eq False c1 r1 have "parse_set_items (acc @ [code1]) r1 = Inr (x, r)"
        by (auto split: if_splits)
      with "2.IH"(2) [OF False c1 refl r1 nodash] l1
      show ?thesis by simp
    next
      case dash: True
      with eq False c1 r1 obtain t r3 where r2: "r2 = t # r3"
        by (auto split: list.splits)
      show ?thesis
      proof (cases "t = RBRACK")
        case True
        with eq False c1 r1 dash r2 l1 show ?thesis by auto
      next
        case norb: False
        with eq False c1 r1 dash r2 obtain code2 r4
          where c2: "class_code t r3 = Inr (code2, r4)"
          by (auto split: sum.splits)
        with eq False c1 r1 dash r2 norb obtain lo hi
          where lohi: "code1 = SLit lo" "code2 = SLit hi" "\<not> hi < lo"
          by (auto split: setitem.splits if_splits)
        have l2: "length r4 \<le> length r3" using c2 by (rule class_code_length)
        from eq False c1 r1 dash r2 norb c2 lohi
        have "parse_set_items (acc @ [SRange lo hi]) r4 = Inr (x, r)"
          by (auto split: if_splits)
        with "2.IH"(1) [OF False c1 refl r1 dash r2 norb c2 refl lohi(1) lohi(2) lohi(3)]
          l1 l2 r1 r2
        show ?thesis by simp
      qed
    qed
  qed
qed

text \<open>
  The alternatives of a pattern, read up to a parenthesis or the end of the pattern:
  \<open>bs\<close> holds the alternatives closed by \<open>|\<close>, \<open>acc\<close> the items of the current one.
  A repetition character applies to the item before it: with none there is nothing to
  repeat, and an item that is repeated already cannot be repeated again; both are errors.
  Lazy and possessive repetition, escapes outside a set, \<open>.\<close>, \<open>^\<close>, \<open>$\<close> and \<open>{\<close>
  are outside the fragment.
\<close>

definition repeat_of :: "nat \<Rightarrow> atom \<Rightarrow> item" where
  "repeat_of c a = (if c = STAR then Star a else if c = PLUS then Plus a else Opt a)"

function parse_branches ::
  "item list list \<Rightarrow> item list \<Rightarrow> pystr \<Rightarrow> error + (item list list \<times> pystr)" where
  "parse_branches bs acc [] = Inr (bs @ [acc], [])"
| "parse_branches bs acc (c # cs) =
     (if c = LPAREN \<or> c = RPAREN then Inr (bs @ [acc], c # cs)
      else if c = BAR then parse_branches (bs @ [acc]) [] cs
      else if c = BSLASH \<or> c = DOT \<or> c = CARET \<or> c = DOLLAR \<or> c = LBRACE then Inl Unsupported
      else if c = STAR \<or> c = PLUS \<or> c = QMARK then
        (case acc of
           [] \<Rightarrow> Inl ReError
         | _ # _ \<Rightarrow>
             (case last acc of
                One a \<Rightarrow>
                  (case cs of
                     [] \<Rightarrow> parse_branches bs (butlast acc @ [repeat_of c a]) cs
                   | d # _ \<Rightarrow>
                       if d = QMARK \<or> d = PLUS then Inl Unsupported
                       else parse_branches bs (butlast acc @ [repeat_of c a]) cs)
              | _ \<Rightarrow> Inl ReError))
      else if c = LBRACK then
        (case cs of
           [] \<Rightarrow> Inl ReError
         | d # r \<Rightarrow>
             (case parse_set_items [] (if d = CARET then r else cs) of
                Inl e \<Rightarrow> Inl e
              | Inr (members, rest) \<Rightarrow>
                  parse_branches bs (acc @ [One (In (d = CARET) members)]) rest))
      else parse_branches bs (acc @ [One (Lit c)]) cs)"
  by pat_completeness auto
termination
proof (relation "measure (\<lambda>(bs, acc, s). length s)", goal_cases)
  case (5 bs acc c cs d r x members rest)
  then show ?case
    using parse_set_items_length [of "[]" "if d = CARET then r else cs" members rest]
    by (auto split: if_splits)
qed simp_all

declare parse_branches.simps(2) [simp del]

text \<open>
  An item that can match without consuming a character.
\<close>

fun nullable :: "item \<Rightarrow> bool" where
  "nullable (One a) = False"
| "nullable (Plus a) = False"
| "nullable (Star a) = True"
| "nullable (Opt a) = True"

text \<open>
  \<open>re.compile\<close> on the fragment: items, one capturing group, items. A \<open>)\<close> with no
  group open and a group left open are errors. A pattern with no group, with a second or
  a nested group, with \<open>(?\<close>, with a repeated group or with an alternation outside the
  group is outside the fragment, and so is a group with an alternative that can match the
  empty string.
\<close>

definition re_compile :: "pystr \<Rightarrow> error + re_pattern" where
  "re_compile p =
     (case parse_branches [] [] p of
        Inl e \<Rightarrow> Inl e
      | Inr (b1, r1) \<Rightarrow>
          (case r1 of
             [] \<Rightarrow> Inl Unsupported
           | c1 # s1 \<Rightarrow>
               if c1 = RPAREN then Inl ReError
               else if s1 \<noteq> [] \<and> hd s1 = QMARK then Inl Unsupported
               else
                 (case parse_branches [] [] s1 of
                    Inl e \<Rightarrow> Inl e
                  | Inr (b2, r2) \<Rightarrow>
                      (case r2 of
                         [] \<Rightarrow> Inl ReError
                       | c2 # s2 \<Rightarrow>
                           if c2 = LPAREN then Inl Unsupported
                           else if s2 \<noteq> [] \<and> hd s2 \<in> {STAR, PLUS, QMARK, LBRACE}
                             then Inl Unsupported
                           else
                             (case parse_branches [] [] s2 of
                                Inl e \<Rightarrow> Inl e
                              | Inr (b3, r3) \<Rightarrow>
                                  (case r3 of
                                     c3 # _ \<Rightarrow>
                                       if c3 = RPAREN then Inl ReError else Inl Unsupported
                                   | [] \<Rightarrow>
                                       (case (b1, b3) of
                                          ([p1], [p3]) \<Rightarrow>
                                            if list_ex (list_all nullable) b2
                                            then Inl Unsupported
                                            else Inr \<lparr>pre = p1, alts = b2, post = p3\<rparr>
                                        | _ \<Rightarrow> Inl Unsupported)))))))"

subsection \<open>Matching\<close>

fun member_matches :: "setitem \<Rightarrow> nat \<Rightarrow> bool" where
  "member_matches (SLit c) x = (x = c)"
| "member_matches (SRange lo hi) x = (lo \<le> x \<and> x \<le> hi)"
| "member_matches SSpace x = isspace x"

fun accepts :: "atom \<Rightarrow> nat \<Rightarrow> bool" where
  "accepts (Lit c) x = (x = c)"
| "accepts (In negate members) x = (list_ex (\<lambda>m. member_matches m x) members \<noteq> negate)"

text \<open>
  The engine backtracks. An item applied to a text gives the texts it can leave, in the
  order in which the engine tries them: a greedy repetition leaves the shortest rest
  first and gives characters back one at a time.
\<close>

fun star_rests :: "(nat \<Rightarrow> bool) \<Rightarrow> pystr \<Rightarrow> pystr list" where
  "star_rests P [] = [[]]"
| "star_rests P (c # cs) = (if P c then star_rests P cs else []) @ [c # cs]"

fun rests :: "item \<Rightarrow> pystr \<Rightarrow> pystr list" where
  "rests (One a) [] = []"
| "rests (One a) (c # cs) = (if accepts a c then [cs] else [])"
| "rests (Star a) s = star_rests (accepts a) s"
| "rests (Plus a) [] = []"
| "rests (Plus a) (c # cs) = (if accepts a c then star_rests (accepts a) cs else [])"
| "rests (Opt a) [] = [[]]"
| "rests (Opt a) (c # cs) = (if accepts a c then [cs, c # cs] else [c # cs])"

fun seq_rests :: "item list \<Rightarrow> pystr \<Rightarrow> pystr list" where
  "seq_rests [] s = [s]"
| "seq_rests (i # is) s = concat (map (seq_rests is) (rests i s))"

text \<open>
  The ways the whole expression matches at the start of a text, in the engine's order:
  each is the text captured by the group and the text left after the match. The engine
  takes the first.
\<close>

definition candidates :: "re_pattern \<Rightarrow> pystr \<Rightarrow> (pystr \<times> pystr) list" where
  "candidates rx s =
     concat (map (\<lambda>r1.
       concat (map (\<lambda>alt.
         concat (map (\<lambda>r2.
           map (\<lambda>r3. (take (length r1 - length r2) r1, r3)) (seq_rests (post rx) r2))
         (seq_rests alt r1)))
       (alts rx)))
     (seq_rests (pre rx) s))"

definition match_here :: "re_pattern \<Rightarrow> pystr \<Rightarrow> (pystr \<times> pystr) option" where
  "match_here rx s = (case candidates rx s of [] \<Rightarrow> None | m # _ \<Rightarrow> Some m)"

text \<open>
  \<open>search\<close>: the first position, from the left, at which the expression matches.
\<close>

fun search :: "re_pattern \<Rightarrow> pystr \<Rightarrow> (pystr \<times> pystr) option" where
  "search rx [] = match_here rx []"
| "search rx (c # cs) =
     (case match_here rx (c # cs) of Some m \<Rightarrow> Some m | None \<Rightarrow> search rx cs)"

text \<open>
  \<open>findall\<close> for an expression with one group: the group's text of each match, every
  search starting where the match before it ended. No match of a compiled expression of
  the fragment is empty, so the text left is shorter each time (lemma
  \<open>search_shorter\<close> below); the last branch is never taken.
\<close>

function findall :: "re_pattern \<Rightarrow> pystr \<Rightarrow> pystr list" where
  "findall rx s =
     (case search rx s of
        None \<Rightarrow> []
      | Some (tok, rest) \<Rightarrow> if length rest < length s then tok # findall rx rest else [])"
  by pat_completeness auto
termination
  by (relation "measure (\<lambda>(rx, s). length s)") auto

declare findall.simps [simp del]

section \<open>KeywordProcessor\<close>

subsection \<open>The arguments of the constructor\<close>

text \<open>
  \<open>separators\<close> is a string (\<open>list(separators)\<close> gives its characters). \<open>quotes\<close> is
  a list of one-character strings or \<open>None\<close>. \<open>groups\<close> is \<open>None\<close>, a string, or a
  list or tuple whose members are one-character strings or \<open>None\<close>. \<open>group\<close> is
  \<open>False\<close>, \<open>True\<close>, \<open>None\<close>, \<open>dict\<close> or one of the types \<open>list\<close>, \<open>tuple\<close>
  and \<open>set\<close>; \<open>result\<close> is one of these three types. \<open>normalize\<close> is \<open>None\<close> or a
  function from strings to strings, which may raise (the value \<open>None\<close> of the model).
\<close>

datatype groups_arg = GroupsNone | GroupsStr pystr | GroupsList "nat option list"

datatype container = PyList | PyTuple | PySet

datatype group_arg = GroupFalse | GroupTrue | GroupNone | GroupDict | GroupType container

record config =
  separators :: pystr
  quotes :: "nat list option"
  groups :: groups_arg
  group :: group_arg
  normalize :: "(pystr \<Rightarrow> pystr option) option"
  sort' :: bool
  result :: container

text \<open>
  The defaults of the constructor: \<open>separators=' \t'\<close>, the two quotes \<open>"\<close> and
  \<open>'\<close>, \<open>groups=[]\<close>, \<open>group=False\<close>, \<open>normalize=None\<close>, \<open>sort=False\<close>,
  \<open>result=list\<close>.
\<close>

definition default :: config where
  "default =
     \<lparr>separators = [32, 9], quotes = Some [34, 39], groups = GroupsList [],
      group = GroupFalse, normalize = None, sort' = False, result = PyList\<rparr>"

text \<open>
  The object: \<open>self.pattern\<close>, \<open>self.regex\<close>, \<open>self.groups\<close>, \<open>self.group\<close>,
  \<open>self.normalize\<close>, \<open>self.sort\<close> and \<open>self.result\<close>.
\<close>

record processor =
  self_pattern :: pystr
  self_regex :: re_pattern
  self_groups :: "nat option list"
  self_group :: group_arg
  self_normalize :: "(pystr \<Rightarrow> pystr option) option"
  self_sort :: bool
  self_result :: container

subsection \<open>The constructor\<close>

text \<open>
  \<open>if groups\<close>, \<open>list(groups)\<close> and \<open>None in groups\<close>. \<open>list(None)\<close> raises a
  \<open>TypeError\<close>, and so does \<open>None in groups\<close> when \<open>groups\<close> is a string.
\<close>

fun truthy :: "groups_arg \<Rightarrow> bool" where
  "truthy GroupsNone = False"
| "truthy (GroupsStr s) = (s \<noteq> [])"
| "truthy (GroupsList l) = (l \<noteq> [])"

fun list_of :: "groups_arg \<Rightarrow> error + nat option list" where
  "list_of GroupsNone = Inl (TypeError NotIterable)"
| "list_of (GroupsStr s) = Inr (map Some s)"
| "list_of (GroupsList l) = Inr l"

fun none_in :: "groups_arg \<Rightarrow> error + bool" where
  "none_in GroupsNone = Inl (TypeError NotIterable)"
| "none_in (GroupsStr s) = Inl (TypeError InRequiresString)"
| "none_in (GroupsList l) = Inr (None \<in> set l)"

text \<open>
  The third piece of the pattern,
  \<open>('[%s]%s' % (''.join([i for i in list(groups) if i is not None]),
  '?' if None in groups else '')) if groups else ''\<close>.
\<close>

definition groups_piece :: "groups_arg \<Rightarrow> error + pystr" where
  "groups_piece g =
     (if truthy g then
        (case list_of g of
           Inl e \<Rightarrow> Inl e
         | Inr l \<Rightarrow>
             (case none_in g of
                Inl e \<Rightarrow> Inl e
              | Inr opt \<Rightarrow>
                  Inr (str ''['' @ concat (map (\<lambda>i. case i of None \<Rightarrow> [] | Some m \<Rightarrow> [m]) l)
                       @ str '']'' @ (if opt then str ''?'' else []))))
      else Inr [])"

text \<open>
  The fourth piece,
  \<open>''.join([(r'%s[^%s]+%s|' % (i, i, i)) for i in quotes]) if quotes else ''\<close>.
\<close>

definition quotes_piece :: "nat list option \<Rightarrow> pystr" where
  "quotes_piece qs =
     (case qs of
        None \<Rightarrow> []
      | Some l \<Rightarrow> concat (map (\<lambda>i. [i] @ str ''[^'' @ [i] @ str '']+'' @ [i] @ str ''|'') l))"

text \<open>
  \<open>self.pattern\<close>: the seven pieces joined.
\<close>

definition pattern_of :: "pystr \<Rightarrow> pystr \<Rightarrow> pystr \<Rightarrow> pystr" where
  "pattern_of seps gp qp =
     concat
       [str ''['' @ [BSLASH] @ str ''s'' @ seps @ str '']*'',
        str ''('',
        gp,
        qp,
        str ''[^'' @ seps @ str '']+'',
        str '')'',
        str ''['' @ seps @ str '']*'']"

text \<open>
  \<open>__init__\<close>. The pattern is built first (where \<open>None in groups\<close> can raise), then
  compiled (where \<open>re.compile\<close> can raise), and \<open>list(groups)\<close> comes after that.
\<close>

definition init :: "config \<Rightarrow> error + processor" where
  "init c =
     (case groups_piece (groups c) of
        Inl e \<Rightarrow> Inl e
      | Inr gp \<Rightarrow>
          (case re_compile (pattern_of (separators c) gp (quotes_piece (quotes c))) of
             Inl e \<Rightarrow> Inl e
           | Inr rx \<Rightarrow>
               (case list_of (groups c) of
                  Inl e \<Rightarrow> Inl e
                | Inr gl \<Rightarrow>
                    Inr \<lparr>self_pattern = pattern_of (separators c) gp (quotes_piece (quotes c)),
                         self_regex = rx,
                         self_groups = gl,
                         self_group = (if group c = GroupTrue then GroupDict else group c),
                         self_normalize = normalize c,
                         self_sort = sort' c,
                         self_result = result c\<rparr>)))"

subsection \<open>Values\<close>

text \<open>
  The argument of \<open>split\<close> is any Python value: a \<open>str\<close> or something else.
\<close>

datatype other_value = NoneValue | IntValue int | BytesValue "nat list" | ListValue "pystr list"

datatype pyvalue = Str pystr | NonStr other_value

text \<open>
  What \<open>split\<close> returns: \<open>self.result(matches)\<close>; \<open>self.result\<close> of a list of
  (marker, term) pairs; the \<open>dict\<close> of the groups, its keys in insertion order; or
  \<open>self.group\<close> of the list of the groups' lists.
\<close>

datatype 'a collection = ListOf "'a list" | TupleOf "'a list" | SetOf "'a set"

fun collect :: "container \<Rightarrow> 'a list \<Rightarrow> 'a collection" where
  "collect PyList xs = ListOf xs"
| "collect PyTuple xs = TupleOf xs"
| "collect PySet xs = SetOf (set xs)"

type_synonym groups_dict = "(nat option \<times> pystr list) list"

datatype split_result =
    Terms "pystr collection"
  | Pairs "(nat option \<times> pystr) collection"
  | Mapping groups_dict
  | Sequences "pystr list collection"

subsection \<open>The dictionary of the groups\<close>

text \<open>
  \<open>d[k] = v\<close> keeps the place of a key that is there and puts a new key last;
  \<open>d[k]\<close> raises \<open>KeyError\<close> on a missing key.
\<close>

definition setitem :: "groups_dict \<Rightarrow> nat option \<Rightarrow> pystr list \<Rightarrow> groups_dict" where
  "setitem d k v =
     (case map_of d k of
        None \<Rightarrow> d @ [(k, v)]
      | Some _ \<Rightarrow> map (\<lambda>(k', v'). if k' = k then (k', v) else (k', v')) d)"

definition getitem :: "groups_dict \<Rightarrow> nat option \<Rightarrow> error + pystr list" where
  "getitem d k = (case map_of d k of None \<Rightarrow> Inl KeyError | Some v \<Rightarrow> Inr v)"

text \<open>
  \<open>groups = dict([(i, list()) for i in self.groups])\<close>, and then
  \<open>if None not in groups.keys(): groups[None] = list()\<close>.
\<close>

definition new_groups :: "nat option list \<Rightarrow> groups_dict" where
  "new_groups gs =
     (let d = foldl (\<lambda>d i. setitem d i []) [] gs
      in if None \<notin> set (map fst d) then setitem d None [] else d)"

text \<open>
  \<open>groups[k].append(x)\<close>.
\<close>

definition append_to :: "groups_dict \<Rightarrow> nat option \<Rightarrow> pystr \<Rightarrow> error + groups_dict" where
  "append_to d k x =
     (case getitem d k of
        Inl e \<Rightarrow> Inl e
      | Inr v \<Rightarrow> Inr (setitem d k (v @ [x])))"

text \<open>
  The loop over the matches: \<open>i[0]\<close> raises \<open>IndexError\<close> on an empty term.
\<close>

fun bucket :: "nat option list \<Rightarrow> groups_dict \<Rightarrow> pystr list \<Rightarrow> error + groups_dict" where
  "bucket gs d [] = Inr d"
| "bucket gs d (i # matches) =
     (case i of
        [] \<Rightarrow> Inl IndexError
      | c # t \<Rightarrow>
          (case (if Some c \<in> set gs then append_to d (Some c) t else append_to d None i) of
             Inl e \<Rightarrow> Inl e
           | Inr d' \<Rightarrow> bucket gs d' matches))"

text \<open>
  \<open>[groups[group] for group in self.groups]\<close>.
\<close>

fun lists_of :: "groups_dict \<Rightarrow> nat option list \<Rightarrow> error + pystr list list" where
  "lists_of d [] = Inr []"
| "lists_of d (g # gs) =
     (case getitem d g of
        Inl e \<Rightarrow> Inl e
      | Inr v \<Rightarrow> (case lists_of d gs of Inl e \<Rightarrow> Inl e | Inr vs \<Rightarrow> Inr (v # vs)))"

text \<open>
  The loop \<open>for group in self.groups:
  results.extend([(group, match) for match in groups[group]])\<close>.
\<close>

fun pairs_of :: "groups_dict \<Rightarrow> nat option list \<Rightarrow> error + (nat option \<times> pystr) list" where
  "pairs_of d [] = Inr []"
| "pairs_of d (g # gs) =
     (case getitem d g of
        Inl e \<Rightarrow> Inl e
      | Inr v \<Rightarrow> (case pairs_of d gs of Inl e \<Rightarrow> Inl e | Inr ps \<Rightarrow> Inr (map (Pair g) v @ ps)))"

subsection \<open>split\<close>

text \<open>
  \<open>[self.normalize(i) for i in matches]\<close>, when \<open>self.normalize\<close> is callable.
\<close>

fun normalized :: "(pystr \<Rightarrow> pystr option) \<Rightarrow> pystr list \<Rightarrow> error + pystr list" where
  "normalized f [] = Inr []"
| "normalized f (i # matches) =
     (case f i of
        None \<Rightarrow> Inl NormalizationError
      | Some t \<Rightarrow> (case normalized f matches of Inl e \<Rightarrow> Inl e | Inr ts \<Rightarrow> Inr (t # ts)))"

text \<open>
  The second and third lines of \<open>split\<close>: the matches normalised, when
  \<open>self.normalize\<close> is callable, and then sorted, when \<open>self.sort\<close> is set.
\<close>

definition prepared :: "processor \<Rightarrow> pystr list \<Rightarrow> error + pystr list" where
  "prepared self matches =
     (case (case self_normalize self of
              None \<Rightarrow> Inr matches
            | Some f \<Rightarrow> normalized f matches) of
        Inl e \<Rightarrow> Inl e
      | Inr ms \<Rightarrow> Inr (if self_sort self then sort ms else ms))"

text \<open>
  The terms of a text: \<open>self.regex.findall(value)\<close>, normalised and sorted.
\<close>

definition terms :: "processor \<Rightarrow> pystr \<Rightarrow> error + pystr list" where
  "terms self v = prepared self (findall (self_regex self) v)"

text \<open>
  The shape of the result when \<open>self.groups\<close> is not empty. \<open>self.group\<close> that is
  neither \<open>dict\<close>, \<open>False\<close> nor \<open>None\<close> is called: \<open>True\<close> is not callable, and
  \<open>set\<close> of a list of lists raises, a list not being hashable.
\<close>

definition grouped :: "processor \<Rightarrow> groups_dict \<Rightarrow> error + split_result" where
  "grouped self d =
     (case self_group self of
        GroupDict \<Rightarrow> Inr (Mapping d)
      | GroupTrue \<Rightarrow> Inl (TypeError NotCallable)
      | GroupType t \<Rightarrow>
          (case lists_of d (self_groups self) of
             Inl e \<Rightarrow> Inl e
           | Inr vs \<Rightarrow>
               (case t of
                  PyList \<Rightarrow> Inr (Sequences (ListOf vs))
                | PyTuple \<Rightarrow> Inr (Sequences (TupleOf vs))
                | PySet \<Rightarrow> if vs = [] then Inr (Sequences (SetOf {})) else Inl (TypeError Unhashable)))
      | _ \<Rightarrow>
          (case pairs_of d (self_groups self) of
             Inl e \<Rightarrow> Inl e
           | Inr results \<Rightarrow> Inr (Pairs (collect (self_result self) results))))"

text \<open>
  The rest of \<open>split\<close>, from \<open>if not self.groups\<close> on.
\<close>

definition shaped :: "processor \<Rightarrow> pystr list \<Rightarrow> error + split_result" where
  "shaped self matches =
     (if self_groups self = [] then Inr (Terms (collect (self_result self) matches))
      else
        (case bucket (self_groups self) (new_groups (self_groups self)) matches of
           Inl e \<Rightarrow> Inl e
         | Inr d \<Rightarrow> grouped self d))"

definition split :: "processor \<Rightarrow> pyvalue \<Rightarrow> error + split_result" where
  "split self value =
     (case value of
        NonStr _ \<Rightarrow> Inl (TypeError InvalidValue)
      | Str v \<Rightarrow>
          (case terms self v of
             Inl e \<Rightarrow> Inl e
           | Inr matches \<Rightarrow> shaped self matches))"

text \<open>
  \<open>KeywordProcessor(...).split(value)\<close>: construction, then \<open>split\<close> on the object.
\<close>

definition split_with :: "config \<Rightarrow> pyvalue \<Rightarrow> error + split_result" where
  "split_with c v = (case init c of Inl e \<Rightarrow> Inl e | Inr self \<Rightarrow> split self v)"

text \<open>
  \<open>sep.join(terms)\<close>.
\<close>

fun join :: "nat \<Rightarrow> pystr list \<Rightarrow> pystr" where
  "join c [] = []"
| "join c [t] = t"
| "join c (t # u # ts) = t @ c # join c (u # ts)"

subsection \<open>The notebook's search parser\<close>

text \<open>
  \<open>search_parser = KeywordProcessor(groups=[None, '+', '-'], group=tuple)\<close>, and the
  object it constructs. The notebook prints its pattern:
  \<open>[\s \t]*([+-]?"[^"]+"|'[^']+'|[^ \t]+)[ \t]*\<close>. The marker class binds to the first
  alternative only.
\<close>

definition search_parser :: config where
  "search_parser =
     default\<lparr>groups := GroupsList [None, Some (ord CHR ''+''), Some (ord CHR ''-'')],
             group := GroupType PyTuple\<rparr>"

definition search_object :: processor where
  "search_object =
     \<lparr>self_pattern =
        [91, 92, 115, 32, 9, 93, 42, 40, 91, 43, 45, 93, 63, 34, 91, 94, 34, 93, 43, 34,
         124, 39, 91, 94, 39, 93, 43, 39, 124, 91, 94, 32, 9, 93, 43, 41, 91, 32, 9, 93, 42],
      self_regex =
        \<lparr>pre = [Star (In False [SSpace, SLit 32, SLit 9])],
         alts =
           [[Opt (In False [SLit 43, SLit 45]), One (Lit 34), Plus (In True [SLit 34]),
             One (Lit 34)],
            [One (Lit 39), Plus (In True [SLit 39]), One (Lit 39)],
            [Plus (In True [SLit 32, SLit 9])]],
         post = [Star (In False [SLit 32, SLit 9])]\<rparr>,
      self_groups = [None, Some 43, Some 45],
      self_group = GroupType PyTuple,
      self_normalize = None,
      self_sort = False,
      self_result = PyList\<rparr>"

section \<open>Running the model\<close>

lemmas build_simps =
  init_def default_def groups_piece_def quotes_piece_def pattern_of_def re_compile_def
  parse_branches.simps parse_set_items.simps class_code_def repeat_of_def str_def

lemmas match_simps =
  findall.simps match_here_def candidates_def isspace_def str_def

lemmas split_simps =
  split_def terms_def prepared_def shaped_def grouped_def new_groups_def setitem_def
  getitem_def append_to_def

lemma init_search_parser: "init search_parser = Inr search_object"
  by (simp add: search_parser_def search_object_def build_simps)

section \<open>The pattern of an ordinary configuration\<close>

text \<open>
  The constructor puts the characters it is given into the pattern as they are. A
  character is ordinary where it stands for itself there: in a set, any character but
  the backslash, \<open>]\<close> and \<open>^\<close>, and \<open>-\<close> only as the last one; as a quote, which
  stands outside a set too, any character with no meaning of its own in a pattern. For
  such a configuration the pattern compiles to the expression expected from it.
\<close>

subsection \<open>Ordinary characters\<close>

text \<open>
  \<open>set_chars\<close>: the characters between the brackets of a set are all read as members.
  \<open>literal_char\<close>: the character is read as itself outside a set.
\<close>

definition set_char :: "nat \<Rightarrow> bool" where
  "set_char c = (c \<noteq> BSLASH \<and> c \<noteq> RBRACK \<and> c \<noteq> CARET \<and> c \<noteq> DASH)"

fun set_chars :: "pystr \<Rightarrow> bool" where
  "set_chars [] = True"
| "set_chars [c] = (c \<noteq> BSLASH \<and> c \<noteq> RBRACK \<and> c \<noteq> CARET)"
| "set_chars (c # d # cs) = (set_char c \<and> set_chars (d # cs))"

definition literal_char :: "nat \<Rightarrow> bool" where
  "literal_char c =
     (c \<notin> {BSLASH, LBRACK, RBRACK, LPAREN, RPAREN, LBRACE, CARET, DOLLAR, DOT, BAR, STAR, PLUS,
            QMARK})"

lemma parse_set_items_chars:
  "set_chars cs \<Longrightarrow> cs \<noteq> [] \<Longrightarrow>
   parse_set_items acc (cs @ RBRACK # rest) = Inr (acc @ map SLit cs, rest)"
proof (induction cs arbitrary: acc rule: set_chars.induct)
  case 1
  then show ?case by simp
next
  case (2 c)
  then show ?case
    by (simp add: parse_set_items.simps(2)
        class_code_def)
next
  case (3 c d cs)
  show ?case
  proof (cases "d = DASH")
    case True
    with "3.prems" have "cs = []" by (cases cs) (auto simp: set_char_def)
    with True "3.prems" show ?thesis
      by (simp add: parse_set_items.simps(2) class_code_def set_char_def)
  next
    case False
    from "3.prems" have "set_chars (d # cs)" by simp
    from "3.IH" [OF this, of "acc @ [SLit c]"] False "3.prems" show ?thesis
      by (simp add: parse_set_items.simps(2) class_code_def set_char_def)
  qed
qed

lemma parse_set_items_space:
  assumes "set_chars cs"
  shows "parse_set_items [] (BSLASH # LOWER_S # cs @ RBRACK # rest) =
         Inr (SSpace # map SLit cs, rest)"
proof (cases cs)
  case Nil
  then show ?thesis
    by (simp add: parse_set_items.simps(2)
        class_code_def)
next
  case (Cons d ds)
  show ?thesis
  proof (cases "d = DASH")
    case True
    with assms Cons have "ds = []" by (cases ds) (auto simp: set_char_def)
    with True Cons show ?thesis
      by (simp add: parse_set_items.simps(2) class_code_def)
  next
    case False
    from assms Cons have "cs \<noteq> []" by simp
    from parse_set_items_chars [OF assms this, of "[SSpace]" rest] False Cons show ?thesis
      by (simp add: parse_set_items.simps(2) class_code_def)
  qed
qed

lemma set_chars_hd: "set_chars (c # cs) \<Longrightarrow> c \<noteq> CARET \<and> c \<noteq> BSLASH \<and> c \<noteq> RBRACK"
  by (cases cs) (auto simp: set_char_def)

subsection \<open>How each piece of the pattern is read\<close>

lemma parse_branches_set:
  assumes "set_chars cs" "cs \<noteq> []"
  shows "parse_branches bs acc (LBRACK # cs @ RBRACK # rest) =
         parse_branches bs (acc @ [One (In False (map SLit cs))]) rest"
proof -
  from assms obtain d ds where cs: "cs = d # ds" by (cases cs) auto
  with assms have d: "d \<noteq> CARET" using set_chars_hd by blast
  from parse_set_items_chars [OF assms, of "[]" rest] cs d show ?thesis
    by (simp add: parse_branches.simps(2))
qed

lemma parse_branches_negated_set:
  assumes "set_chars cs" "cs \<noteq> []"
  shows "parse_branches bs acc (LBRACK # CARET # cs @ RBRACK # rest) =
         parse_branches bs (acc @ [One (In True (map SLit cs))]) rest"
  using parse_set_items_chars [OF assms, of "[]" rest]
  by (simp add: parse_branches.simps(2))

lemma parse_branches_space_set:
  assumes "set_chars cs"
  shows "parse_branches bs acc (LBRACK # BSLASH # LOWER_S # cs @ RBRACK # rest) =
         parse_branches bs (acc @ [One (In False (SSpace # map SLit cs))]) rest"
  using parse_set_items_space [OF assms, of rest]
  by (simp add: parse_branches.simps(2))

lemma case_snoc: "(case xs @ [x] of [] \<Rightarrow> a | _ # _ \<Rightarrow> b) = b"
  by (cases xs) auto

lemma parse_branches_repeat:
  assumes "c = STAR \<or> c = PLUS \<or> c = QMARK"
    and "rest = [] \<or> (hd rest \<noteq> QMARK \<and> hd rest \<noteq> PLUS)"
  shows "parse_branches bs (acc @ [One a]) (c # rest) =
         parse_branches bs (acc @ [repeat_of c a]) rest"
  apply (subst parse_branches.simps(2))
  using assms by (cases rest) (auto simp: case_snoc)

lemma parse_branches_literal:
  assumes "literal_char c"
  shows "parse_branches bs acc (c # rest) = parse_branches bs (acc @ [One (Lit c)]) rest"
  using assms by (simp add: parse_branches.simps(2) literal_char_def)

lemma parse_branches_bar:
  "parse_branches bs acc (BAR # rest) = parse_branches (bs @ [acc]) [] rest"
  by (simp add: parse_branches.simps(2))

lemma parse_branches_paren:
  "parse_branches bs acc (LPAREN # rest) = Inr (bs @ [acc], LPAREN # rest)"
  "parse_branches bs acc (RPAREN # rest) = Inr (bs @ [acc], RPAREN # rest)"
  by (simp_all add: parse_branches.simps(2))

subsection \<open>The expected expression\<close>

text \<open>
  The expression meant by the pattern: separators and white space skipped, then one of the
  alternatives of the group (a quoted text for each quote character, and last a run of
  characters that are no separators), then separators skipped. The set of the markers
  stands in front of the first alternative only, as it does in the pattern.
\<close>

definition markers :: "nat option list \<Rightarrow> pystr" where
  "markers gs = concat (map (\<lambda>i. case i of None \<Rightarrow> [] | Some m \<Rightarrow> [m]) gs)"

definition quoted :: "nat \<Rightarrow> item list" where
  "quoted q = [One (Lit q), Plus (In True [SLit q]), One (Lit q)]"

definition marker_items :: "nat option list \<Rightarrow> item list" where
  "marker_items gs =
     (if gs = [] then []
      else if None \<in> set gs then [Opt (In False (map SLit (markers gs)))]
      else [One (In False (map SLit (markers gs)))])"

definition bare :: "pystr \<Rightarrow> item list" where
  "bare seps = [Plus (In True (map SLit seps))]"

definition expected :: "pystr \<Rightarrow> nat list \<Rightarrow> nat option list \<Rightarrow> re_pattern" where
  "expected seps qs gs =
     \<lparr>pre = [Star (In False (SSpace # map SLit seps))],
      alts =
        (case qs of
           [] \<Rightarrow> [marker_items gs @ bare seps]
         | q # qs' \<Rightarrow> (marker_items gs @ quoted q) # map quoted qs' @ [bare seps]),
      post = [Star (In False (map SLit seps))]\<rparr>"

lemma literal_char_set_chars: "literal_char q \<Longrightarrow> set_chars [q]"
  by (simp add: literal_char_def)

lemma quote_piece:
  assumes "literal_char q"
  shows "parse_branches bs acc (q # LBRACK # CARET # q # RBRACK # PLUS # q # BAR # rest) =
         parse_branches (bs @ [acc @ quoted q]) [] rest"
proof -
  have q: "q \<noteq> QMARK \<and> q \<noteq> PLUS" using assms by (simp add: literal_char_def)
  have "parse_branches bs acc (q # LBRACK # CARET # q # RBRACK # PLUS # q # BAR # rest) =
        parse_branches bs (acc @ [One (Lit q)]) (LBRACK # CARET # [q] @ RBRACK # PLUS # q # BAR # rest)"
    using parse_branches_literal [OF assms] by simp
  also have "\<dots> = parse_branches bs ((acc @ [One (Lit q)]) @ [One (In True (map SLit [q]))])
                     (PLUS # q # BAR # rest)"
    by (rule parse_branches_negated_set) (use assms in \<open>simp_all add: literal_char_def\<close>)
  also have "\<dots> = parse_branches bs ((acc @ [One (Lit q)]) @ [repeat_of PLUS (In True (map SLit [q]))])
                     (q # BAR # rest)"
    by (rule parse_branches_repeat) (simp_all add: q)
  also have "\<dots> = parse_branches bs (acc @ quoted q) (BAR # rest)"
    using parse_branches_literal [OF assms] by (simp add: quoted_def repeat_of_def)
  also have "\<dots> = parse_branches (bs @ [acc @ quoted q]) [] rest"
    by (rule parse_branches_bar)
  finally show ?thesis .
qed

lemma quotes_piece_Cons:
  "quotes_piece (Some (q # qs)) =
     q # LBRACK # CARET # q # RBRACK # PLUS # q # BAR # quotes_piece (Some qs)"
  by (simp add: quotes_piece_def str_def)

lemma quotes_pieces:
  assumes "list_all literal_char qs"
  shows "parse_branches bs [] (quotes_piece (Some qs) @ rest) =
         parse_branches (bs @ map quoted qs) [] rest"
  using assms
proof (induction qs arbitrary: bs)
  case Nil
  show ?case by (simp add: quotes_piece_def)
next
  case (Cons q qs)
  then have q: "literal_char q" and qs: "list_all literal_char qs" by simp_all
  show ?case
    using quote_piece [OF q, of bs "[]" "quotes_piece (Some qs) @ rest"] Cons.IH [OF qs, of "bs @ [quoted q]"]
    by (simp add: quotes_piece_Cons)
qed

lemma bare_piece:
  assumes "set_chars seps" "seps \<noteq> []"
  shows "parse_branches bs acc (LBRACK # CARET # seps @ RBRACK # PLUS # RPAREN # rest) =
         Inr (bs @ [acc @ bare seps], RPAREN # rest)"
proof -
  have "parse_branches bs acc (LBRACK # CARET # seps @ RBRACK # PLUS # RPAREN # rest) =
        parse_branches bs (acc @ [One (In True (map SLit seps))]) (PLUS # RPAREN # rest)"
    by (rule parse_branches_negated_set [OF assms])
  also have "\<dots> = parse_branches bs (acc @ [repeat_of PLUS (In True (map SLit seps))]) (RPAREN # rest)"
    by (rule parse_branches_repeat) simp_all
  also have "\<dots> = Inr (bs @ [acc @ bare seps], RPAREN # rest)"
    by (simp add: parse_branches_paren bare_def repeat_of_def)
  finally show ?thesis .
qed

text \<open>The body of the group, for a configuration without markers.\<close>

lemma body_no_markers:
  assumes "set_chars seps" "seps \<noteq> []" "list_all literal_char qs"
  shows "parse_branches [] acc (quotes_piece (Some qs) @ LBRACK # CARET # seps @ RBRACK # PLUS # RPAREN # rest) =
         Inr ((case qs of [] \<Rightarrow> [acc @ bare seps]
               | q # qs' \<Rightarrow> (acc @ quoted q) # map quoted qs' @ [bare seps]), RPAREN # rest)"
proof (cases qs)
  case Nil
  then show ?thesis using bare_piece [OF assms(1,2)] by (simp add: quotes_piece_def)
next
  case (Cons q qs')
  with assms(3) have q: "literal_char q" and qs: "list_all literal_char qs'" by simp_all
  let ?tail = "LBRACK # CARET # seps @ RBRACK # PLUS # RPAREN # rest"
  have "parse_branches [] acc (quotes_piece (Some qs) @ ?tail) =
        parse_branches [acc @ quoted q] [] (quotes_piece (Some qs') @ ?tail)"
    using quote_piece [OF q, of "[]" acc "quotes_piece (Some qs') @ ?tail"]
    by (simp add: Cons quotes_piece_Cons)
  also have "\<dots> = parse_branches ([acc @ quoted q] @ map quoted qs') [] ?tail"
    by (rule quotes_pieces [OF qs])
  also have "\<dots> = Inr (([acc @ quoted q] @ map quoted qs') @ [[] @ bare seps], RPAREN # rest)"
    by (rule bare_piece [OF assms(1,2)])
  finally show ?thesis by (simp add: Cons)
qed

subsection \<open>Ordinary configurations\<close>

text \<open>
  \<open>ordinary\<close>: every character given to the constructor is ordinary where the pattern
  has it, and the groups are a list (empty, or with a marker in it).
\<close>

definition quote_list :: "nat list option \<Rightarrow> nat list" where
  "quote_list qs = (case qs of None \<Rightarrow> [] | Some l \<Rightarrow> l)"

definition group_list :: "groups_arg \<Rightarrow> nat option list" where
  "group_list g = (case g of GroupsList l \<Rightarrow> l | _ \<Rightarrow> [])"

definition ordinary :: "config \<Rightarrow> bool" where
  "ordinary c =
     (set_chars (separators c) \<and>
      list_all literal_char (quote_list (quotes c)) \<and>
      (case groups c of
         GroupsNone \<Rightarrow> False
       | GroupsStr s \<Rightarrow> s = []
       | GroupsList gs \<Rightarrow> gs = [] \<or> (markers gs \<noteq> [] \<and> set_chars (markers gs))))"

lemma markers_piece:
  assumes "gs \<noteq> []" "markers gs \<noteq> []" "set_chars (markers gs)"
    and "rest = [] \<or> (hd rest \<noteq> QMARK \<and> hd rest \<noteq> PLUS)"
  shows "parse_branches bs []
           ((LBRACK # markers gs @ RBRACK # (if None \<in> set gs then [QMARK] else [])) @ rest) =
         parse_branches bs (marker_items gs) rest"
proof (cases "None \<in> set gs")
  case True
  have "parse_branches bs [] (LBRACK # markers gs @ RBRACK # QMARK # rest) =
        parse_branches bs ([] @ [One (In False (map SLit (markers gs)))]) (QMARK # rest)"
    by (rule parse_branches_set [OF assms(3,2)])
  also have "\<dots> = parse_branches bs ([] @ [repeat_of QMARK (In False (map SLit (markers gs)))]) rest"
    by (rule parse_branches_repeat) (simp_all add: assms(4))
  finally show ?thesis using True assms(1) by (simp add: marker_items_def repeat_of_def)
next
  case False
  have "parse_branches bs [] (LBRACK # markers gs @ RBRACK # rest) =
        parse_branches bs ([] @ [One (In False (map SLit (markers gs)))]) rest"
    by (rule parse_branches_set [OF assms(3,2)])
  then show ?thesis using False assms(1) by (simp add: marker_items_def)
qed

lemma quotes_piece_hd:
  assumes "list_all literal_char qs"
  shows "hd (quotes_piece (Some qs) @ LBRACK # rest) \<noteq> QMARK \<and>
         hd (quotes_piece (Some qs) @ LBRACK # rest) \<noteq> PLUS"
  using assms by (cases qs) (auto simp: quotes_piece_def literal_char_def)

definition groups_text :: "nat option list \<Rightarrow> pystr" where
  "groups_text gs =
     (if gs = [] then []
      else LBRACK # markers gs @ RBRACK # (if None \<in> set gs then [QMARK] else []))"

lemma group_body:
  assumes "set_chars seps" "seps \<noteq> []" "list_all literal_char qs"
    and "gs = [] \<or> (markers gs \<noteq> [] \<and> set_chars (markers gs))"
  shows "parse_branches [] []
           (groups_text gs @ quotes_piece (Some qs) @
            LBRACK # CARET # seps @ RBRACK # PLUS # RPAREN # rest) =
         Inr (alts (expected seps qs gs), RPAREN # rest)"
proof -
  let ?tail = "quotes_piece (Some qs) @ LBRACK # CARET # seps @ RBRACK # PLUS # RPAREN # rest"
  have "parse_branches [] [] (groups_text gs @ ?tail) = parse_branches [] (marker_items gs) ?tail"
  proof (cases "gs = []")
    case True
    then show ?thesis by (simp add: groups_text_def marker_items_def)
  next
    case False
    with assms(4) have m: "markers gs \<noteq> []" "set_chars (markers gs)" by simp_all
    have "?tail = [] \<or> (hd ?tail \<noteq> QMARK \<and> hd ?tail \<noteq> PLUS)"
      using quotes_piece_hd [OF assms(3)] by simp
    from markers_piece [OF False m this] False show ?thesis
      by (simp add: groups_text_def)
  qed
  also have "\<dots> = Inr (alts (expected seps qs gs), RPAREN # rest)"
    using body_no_markers [OF assms(1-3), of "marker_items gs" rest]
    by (simp add: expected_def)
  finally show ?thesis .
qed

lemma not_nullable_quoted: "\<not> list_all nullable (xs @ quoted q)"
  by (simp add: quoted_def)

lemma not_nullable_bare: "\<not> list_all nullable (xs @ bare seps)"
  by (simp add: bare_def)

lemma expected_not_nullable: "\<not> list_ex (list_all nullable) (alts (expected seps qs gs))"
proof (cases qs)
  case Nil
  then show ?thesis by (simp add: expected_def bare_def)
next
  case (Cons q qs')
  have "\<not> list_all nullable (quoted q')" for q' by (simp add: quoted_def)
  moreover have "\<not> list_all nullable (bare seps)" by (simp add: bare_def)
  ultimately show ?thesis
    using Cons by (auto simp: expected_def not_nullable_quoted list_ex_iff)
qed

lemma pattern_of_text:
  "pattern_of seps gp qp =
     LBRACK # BSLASH # LOWER_S # seps @ RBRACK # STAR # LPAREN #
       (gp @ qp @ LBRACK # CARET # seps @ RBRACK # PLUS # RPAREN # LBRACK # seps @ [RBRACK, STAR])"
  by (simp add: pattern_of_def str_def)

lemma re_compile_ordinary:
  assumes "set_chars seps" "seps \<noteq> []" "list_all literal_char qs"
    and "gs = [] \<or> (markers gs \<noteq> [] \<and> set_chars (markers gs))"
  shows "re_compile (pattern_of seps (groups_text gs) (quotes_piece (Some qs))) =
         Inr (expected seps qs gs)"
proof -
  let ?s2 = "LBRACK # seps @ [RBRACK, STAR]"
  let ?s1 = "groups_text gs @ quotes_piece (Some qs) @
             LBRACK # CARET # seps @ RBRACK # PLUS # RPAREN # ?s2"
  let ?p = "pattern_of seps (groups_text gs) (quotes_piece (Some qs))"
  have "parse_branches [] [] ?p =
        parse_branches [] ([] @ [One (In False (SSpace # map SLit seps))]) (STAR # LPAREN # ?s1)"
    unfolding pattern_of_text by (rule parse_branches_space_set [OF assms(1)])
  also have "\<dots> = parse_branches [] ([] @ [repeat_of STAR (In False (SSpace # map SLit seps))])
                     (LPAREN # ?s1)"
    by (rule parse_branches_repeat) simp_all
  also have "\<dots> = Inr ([pre (expected seps qs gs)], LPAREN # ?s1)"
    by (simp add: parse_branches_paren expected_def repeat_of_def)
  finally have p1: "parse_branches [] [] ?p = Inr ([pre (expected seps qs gs)], LPAREN # ?s1)" .
  have p2: "parse_branches [] [] ?s1 = Inr (alts (expected seps qs gs), RPAREN # ?s2)"
    by (rule group_body [OF assms])
  have "parse_branches [] [] (LBRACK # seps @ RBRACK # STAR # []) =
        parse_branches [] ([] @ [One (In False (map SLit seps))]) (STAR # [])"
    by (rule parse_branches_set [OF assms(1,2)])
  also have "\<dots> = parse_branches [] ([] @ [repeat_of STAR (In False (map SLit seps))]) []"
    by (rule parse_branches_repeat) simp_all
  finally have p3: "parse_branches [] [] ?s2 = Inr ([post (expected seps qs gs)], [])"
    by (simp add: expected_def repeat_of_def)
  have h1: "?s1 \<noteq> [] \<and> hd ?s1 \<noteq> QMARK"
  proof (cases "gs = []")
    case True
    then show ?thesis using quotes_piece_hd [OF assms(3)] by (simp add: groups_text_def)
  next
    case False
    then show ?thesis by (simp add: groups_text_def)
  qed
  show ?thesis
    unfolding re_compile_def p1
    using h1 by (simp add: p2 p3 expected_not_nullable del: hd_append2 hd_append)
qed

lemma groups_piece_ordinary:
  assumes "ordinary c"
  shows "groups_piece (groups c) = Inr (groups_text (group_list (groups c)))"
    and "list_of (groups c) = Inr (group_list (groups c))"
  using assms
  by (cases "groups c"; simp add: ordinary_def groups_piece_def groups_text_def group_list_def
        markers_def str_def)+

lemma quotes_piece_list: "quotes_piece qs = quotes_piece (Some (quote_list qs))"
  by (cases qs) (simp_all add: quotes_piece_def quote_list_def)

lemma ordinary_markers:
  assumes "ordinary c"
  shows "group_list (groups c) = [] \<or>
         (markers (group_list (groups c)) \<noteq> [] \<and> set_chars (markers (group_list (groups c))))"
  using assms by (cases "groups c") (auto simp: ordinary_def group_list_def)

lemma init_ordinary:
  assumes "ordinary c" "separators c \<noteq> []"
  shows "init c =
     Inr \<lparr>self_pattern =
            pattern_of (separators c) (groups_text (group_list (groups c)))
              (quotes_piece (quotes c)),
          self_regex =
            expected (separators c) (quote_list (quotes c)) (group_list (groups c)),
          self_groups = group_list (groups c),
          self_group = (if group c = GroupTrue then GroupDict else group c),
          self_normalize = normalize c,
          self_sort = sort' c,
          self_result = result c\<rparr>"
proof -
  from assms(1) have s: "set_chars (separators c)"
    and q: "list_all literal_char (quote_list (quotes c))"
    by (simp_all add: ordinary_def)
  have "re_compile (pattern_of (separators c) (groups_text (group_list (groups c)))
          (quotes_piece (quotes c))) =
        Inr (expected (separators c) (quote_list (quotes c)) (group_list (groups c)))"
    using re_compile_ordinary [OF s assms(2) q ordinary_markers [OF assms(1)]]
    by (simp add: quotes_piece_list [symmetric])
  then show ?thesis
    by (simp add: init_def groups_piece_ordinary [OF assms(1)])
qed

text \<open>The tail of the pattern when there is no separator: the group is never closed.\<close>

lemma empty_bare_piece:
  "parse_branches bs acc [LBRACK, CARET, RBRACK, PLUS, RPAREN, LBRACK, RBRACK, STAR] =
     Inr (bs @ [acc @ [Star (In True [SLit RBRACK, SLit PLUS, SLit RPAREN, SLit LBRACK])]], [])"
proof -
  have "parse_set_items [] [RBRACK, PLUS, RPAREN, LBRACK, RBRACK, STAR] =
        Inr ([SLit RBRACK, SLit PLUS, SLit RPAREN, SLit LBRACK], [STAR])"
    by (simp add: parse_set_items.simps class_code_def)
  then have "parse_branches bs acc [LBRACK, CARET, RBRACK, PLUS, RPAREN, LBRACK, RBRACK, STAR] =
        parse_branches bs (acc @ [One (In True [SLit RBRACK, SLit PLUS, SLit RPAREN, SLit LBRACK])])
          (STAR # [])"
    by (subst parse_branches.simps(2)) simp
  also have "\<dots> =
        parse_branches bs
          (acc @ [repeat_of STAR (In True [SLit RBRACK, SLit PLUS, SLit RPAREN, SLit LBRACK])]) []"
    by (rule parse_branches_repeat) simp_all
  finally show ?thesis by (simp add: repeat_of_def)
qed

lemma init_no_separators:
  assumes "ordinary c" "separators c = []"
  shows "init c = Inl ReError"
proof -
  let ?gs = "group_list (groups c)"
  let ?qs = "quote_list (quotes c)"
  let ?tail = "[LBRACK, CARET, RBRACK, PLUS, RPAREN, LBRACK, RBRACK, STAR]"
  let ?s1 = "groups_text ?gs @ quotes_piece (Some ?qs) @ ?tail"
  from assms(1) have q: "list_all literal_char ?qs" by (simp add: ordinary_def)
  have p: "pattern_of [] (groups_text ?gs) (quotes_piece (Some ?qs)) =
           LBRACK # BSLASH # LOWER_S # [] @ RBRACK # STAR # LPAREN # ?s1"
    by (simp add: pattern_of_text)
  have "parse_branches [] [] (LBRACK # BSLASH # LOWER_S # [] @ RBRACK # STAR # LPAREN # ?s1) =
        parse_branches [] ([] @ [One (In False (SSpace # map SLit []))]) (STAR # LPAREN # ?s1)"
    by (rule parse_branches_space_set) simp
  also have "\<dots> = parse_branches [] ([] @ [repeat_of STAR (In False (SSpace # map SLit []))])
                     (LPAREN # ?s1)"
    by (rule parse_branches_repeat) simp_all
  finally have p1: "parse_branches [] [] (pattern_of [] (groups_text ?gs) (quotes_piece (Some ?qs))) =
        Inr ([[Star (In False [SSpace])]], LPAREN # ?s1)"
    by (simp add: p parse_branches_paren repeat_of_def)
  have hd1: "?s1 \<noteq> [] \<and> hd ?s1 \<noteq> QMARK"
  proof (cases "?gs = []")
    case True
    then show ?thesis using quotes_piece_hd [OF q, of "tl ?tail"] by (simp add: groups_text_def)
  next
    case False
    then show ?thesis by (simp add: groups_text_def)
  qed
  have "parse_branches [] [] ?s1 = parse_branches [] (marker_items ?gs) (quotes_piece (Some ?qs) @ ?tail)"
  proof (cases "?gs = []")
    case True
    then show ?thesis by (simp add: groups_text_def marker_items_def)
  next
    case False
    with ordinary_markers [OF assms(1)] have m: "markers ?gs \<noteq> []" "set_chars (markers ?gs)"
      by simp_all
    have "quotes_piece (Some ?qs) @ ?tail = [] \<or>
          (hd (quotes_piece (Some ?qs) @ ?tail) \<noteq> QMARK \<and> hd (quotes_piece (Some ?qs) @ ?tail) \<noteq> PLUS)"
      using quotes_piece_hd [OF q, of "tl ?tail"] by simp
    from markers_piece [OF False m this] False show ?thesis
      by (simp add: groups_text_def)
  qed
  also have "\<exists>bs. \<dots> = Inr (bs, [])"
  proof (cases ?qs)
    case Nil
    then show ?thesis using empty_bare_piece [of "[]" "marker_items ?gs"]
      by (simp add: quotes_piece_def)
  next
    case (Cons q1 qs')
    with q have q1: "literal_char q1" and qs': "list_all literal_char qs'" by simp_all
    have "parse_branches [] (marker_items ?gs) (quotes_piece (Some ?qs) @ ?tail) =
          parse_branches [marker_items ?gs @ quoted q1] [] (quotes_piece (Some qs') @ ?tail)"
      using quote_piece [OF q1, of "[]" "marker_items ?gs" "quotes_piece (Some qs') @ ?tail"]
      by (simp add: Cons quotes_piece_Cons)
    also have "\<dots> = parse_branches ([marker_items ?gs @ quoted q1] @ map quoted qs') [] ?tail"
      by (rule quotes_pieces [OF qs'])
    finally show ?thesis using empty_bare_piece by simp
  qed
  finally obtain bs where p2: "parse_branches [] [] ?s1 = Inr (bs, [])" by blast
  have "re_compile (pattern_of [] (groups_text ?gs) (quotes_piece (Some ?qs))) = Inl ReError"
    unfolding re_compile_def p1 using hd1 by (simp add: p2 del: hd_append2 hd_append)
  then show ?thesis
    by (simp add: init_def groups_piece_ordinary [OF assms(1)] assms(2)
        quotes_piece_list [symmetric])
qed

section \<open>Matching with the expected expression\<close>

subsection \<open>Sets\<close>

lemma list_ex_SLit [simp]: "list_ex (\<lambda>m. member_matches m x) (map SLit cs) = (x \<in> set cs)"
  by (auto simp: list_ex_iff)

lemma accepts_chars:
  "accepts (In False (map SLit cs)) x = (x \<in> set cs)"
  "accepts (In True (map SLit cs)) x = (x \<notin> set cs)"
  "accepts (In False (SSpace # map SLit cs)) x = (isspace x \<or> x \<in> set cs)"
  by (auto simp: list_ex_iff)

lemma accepts_one: "accepts (In True [SLit q]) x = (x \<noteq> q)"
  by simp

lemma accepts_fun:
  "accepts (In False (map SLit cs)) = (\<lambda>x. x \<in> set cs)"
  "accepts (In True (map SLit cs)) = (\<lambda>x. x \<notin> set cs)"
  "accepts (In False (SSpace # map SLit cs)) = (\<lambda>x. isspace x \<or> x \<in> set cs)"
  "accepts (In True [SLit q]) = (\<lambda>x. x \<noteq> q)"
  by (auto simp: fun_eq_iff)

subsection \<open>Greedy repetition\<close>

lemma star_rests_not_Nil [simp]: "star_rests P s \<noteq> []"
  by (cases s) auto

lemma star_rests_hd: "hd (star_rests P s) = dropWhile P s"
  by (induction s) (auto simp: hd_append)

lemma star_rests_first: "\<exists>ys. star_rests P s = dropWhile P s # ys"
  using star_rests_hd [of P s] star_rests_not_Nil [of P s]
  by (cases "star_rests P s") auto

lemma star_rests_stop: "s = [] \<or> \<not> P (hd s) \<Longrightarrow> star_rests P s = [s]"
  by (cases s) auto

lemma star_rests_append:
  "list_all P a \<Longrightarrow> \<exists>ys. star_rests P (a @ r) = star_rests P r @ ys"
  by (induction a) auto

lemma star_rests_suffix:
  "y \<in> set (star_rests P s) \<Longrightarrow> \<exists>p. s = p @ y"
proof (induction s)
  case Nil
  then show ?case by simp
next
  case (Cons c cs)
  show ?case
  proof (cases "y = c # cs")
    case True
    then show ?thesis by simp
  next
    case False
    with Cons.prems have "y \<in> set (star_rests P cs)" by (auto split: if_splits)
    from Cons.IH [OF this] obtain p where "cs = p @ y" by blast
    then have "c # cs = (c # p) @ y" by simp
    then show ?thesis by blast
  qed
qed

lemma rests_suffix:
  assumes "y \<in> set (rests i s)"
  shows "\<exists>p. s = p @ y"
proof (cases s)
  case Nil
  with assms have "y = []" by (cases i) (auto dest: star_rests_suffix)
  with Nil show ?thesis by simp
next
  case (Cons c cs)
  have a: "\<exists>p. c # cs = p @ cs" by (rule exI [of _ "[c]"]) simp
  have b: "\<exists>p. c # cs = p @ c # cs" by (rule exI [of _ "[]"]) simp
  have d: "\<exists>p. c # cs = p @ z" if "z \<in> set (star_rests P cs)" for z P
  proof -
    from star_rests_suffix [OF that] obtain p where "cs = p @ z" by blast
    then have "c # cs = (c # p) @ z" by simp
    then show ?thesis by blast
  qed
  show ?thesis
  proof (cases i)
    case (One a)
    with assms Cons a show ?thesis by (auto split: if_splits)
  next
    case (Star a)
    with assms Cons show ?thesis using star_rests_suffix [of y "accepts a" s] by simp
  next
    case (Plus a)
    with assms Cons d show ?thesis by (auto split: if_splits)
  next
    case (Opt a)
    with assms Cons a b show ?thesis by (auto split: if_splits)
  qed
qed

lemma seq_rests_suffix: "y \<in> set (seq_rests is s) \<Longrightarrow> \<exists>p. s = p @ y"
proof (induction "is" arbitrary: s)
  case Nil
  then show ?case by simp
next
  case (Cons i "is")
  then obtain r where r: "r \<in> set (rests i s)" "y \<in> set (seq_rests is r)" by auto
  from rests_suffix [OF r(1)] obtain p where "s = p @ r" by blast
  moreover from Cons.IH [OF r(2)] obtain p' where "r = p' @ y" by blast
  ultimately have "s = (p @ p') @ y" by simp
  then show ?case by blast
qed

lemma concat_map_concat:
  "concat (map f (concat (map g xs))) = concat (map (\<lambda>x. concat (map f (g x))) xs)"
  by (induction xs) auto

lemma seq_rests_append:
  "seq_rests (xs @ ys) s = concat (map (seq_rests ys) (seq_rests xs s))"
proof (induction xs arbitrary: s)
  case Nil
  show ?case by simp
next
  case (Cons i xs)
  have "seq_rests (xs @ ys) = (\<lambda>s. concat (map (seq_rests ys) (seq_rests xs s)))"
    using Cons.IH by (intro ext)
  then show ?case by (simp add: concat_map_concat)
qed

lemma seq_rests_Nil_fun: "seq_rests [] = (\<lambda>s. [s])"
  by (rule ext) simp

lemma seq_rests_single [simp]: "seq_rests [i] s = rests i s"
  by (simp add: seq_rests_Nil_fun)

subsection \<open>An item that finds no character\<close>

lemma rests_starved:
  "i = One a \<or> i = Plus a \<Longrightarrow> list_all (\<lambda>c. \<not> accepts a c) s \<Longrightarrow> rests i s = []"
  by (cases s) auto

lemma seq_rests_starved:
  assumes "i \<in> set is" "i = One a \<or> i = Plus a" "list_all (\<lambda>c. \<not> accepts a c) s"
  shows "seq_rests is s = []"
  using assms(1,3)
proof (induction "is" arbitrary: s)
  case Nil
  then show ?case by simp
next
  case (Cons j js)
  show ?case
  proof (cases "j = i")
    case True
    with rests_starved [OF assms(2) Cons.prems(2)] show ?thesis by simp
  next
    case False
    with Cons.prems(1) have i: "i \<in> set js" by simp
    have "seq_rests js r = []" if "r \<in> set (rests j s)" for r
    proof -
      from rests_suffix [OF that] obtain p where "s = p @ r" by blast
      with Cons.prems(2) have "list_all (\<lambda>c. \<not> accepts a c) r" by simp
      from Cons.IH [OF i this] show ?thesis .
    qed
    then show ?thesis by simp
  qed
qed

subsection \<open>The matches at one position\<close>

text \<open>
  \<open>matches_at\<close>: the matches of the group and of what follows it, once the leading
  part of the expression has been matched; \<open>candidates\<close> is their concatenation over
  the ways of matching the leading part.
\<close>

definition alt_matches :: "item list \<Rightarrow> pystr \<Rightarrow> item list \<Rightarrow> (pystr \<times> pystr) list" where
  "alt_matches po r1 alt =
     concat (map (\<lambda>r2. map (\<lambda>r3. (take (length r1 - length r2) r1, r3)) (seq_rests po r2))
                 (seq_rests alt r1))"

definition matches_at :: "re_pattern \<Rightarrow> pystr \<Rightarrow> (pystr \<times> pystr) list" where
  "matches_at rx r1 = concat (map (alt_matches (post rx) r1) (alts rx))"

lemma candidates_at:
  "candidates rx s = concat (map (matches_at rx) (seq_rests (pre rx) s))"
  by (simp add: candidates_def matches_at_def [abs_def] alt_matches_def [abs_def])

lemma alt_matches_Nil: "seq_rests alt r1 = [] \<Longrightarrow> alt_matches po r1 alt = []"
  by (simp add: alt_matches_def)

lemma alt_matches_first:
  assumes "seq_rests alt r1 = r2 # rs"
  shows "\<exists>ms. alt_matches [Star a] r1 alt =
              (take (length r1 - length r2) r1, dropWhile (accepts a) r2) # ms"
proof -
  from star_rests_first [of "accepts a" r2] obtain ys
    where "star_rests (accepts a) r2 = dropWhile (accepts a) r2 # ys" by blast
  with assms show ?thesis by (simp add: alt_matches_def)
qed

lemma match_here_at:
  assumes "pre rx = [Star a]" and "list_all (accepts a) p"
    and "\<And>y p'. accepts a x \<Longrightarrow> b = p' @ y \<Longrightarrow> matches_at rx y = []"
    and "matches_at rx (x # b) = m # ms"
  shows "match_here rx (p @ x # b) = Some m"
proof -
  from star_rests_append [OF assms(2), of "x # b"] obtain ys
    where ys: "star_rests (accepts a) (p @ x # b) = star_rests (accepts a) (x # b) @ ys"
    by blast
  have "concat (map (matches_at rx) (if accepts a x then star_rests (accepts a) b else [])) = []"
  proof (cases "accepts a x")
    case True
    have "matches_at rx y = []" if "y \<in> set (star_rests (accepts a) b)" for y
      using star_rests_suffix [OF that] assms(3) [OF True] by blast
    then show ?thesis using True by simp
  next
    case False
    then show ?thesis by simp
  qed
  moreover have "seq_rests (pre rx) (p @ x # b) = star_rests (accepts a) (p @ x # b)"
    unfolding assms(1) by (simp only: seq_rests_single rests.simps)
  ultimately have "candidates rx (p @ x # b) = (m # ms) @ concat (map (matches_at rx) ys)"
    by (simp add: candidates_at assms(4) ys)
  then show ?thesis by (simp add: match_here_def)
qed

lemma search_here: "match_here rx s = Some m \<Longrightarrow> search rx s = Some m"
  by (cases s) simp_all

lemma match_here_none:
  assumes "\<And>y p. s = p @ y \<Longrightarrow> matches_at rx y = []"
  shows "match_here rx s = None"
proof -
  have "matches_at rx y = []" if "y \<in> set (seq_rests (pre rx) s)" for y
    using seq_rests_suffix [OF that] assms by blast
  then have "candidates rx s = []" by (simp add: candidates_at)
  then show ?thesis by (simp add: match_here_def)
qed

lemma search_none:
  assumes "\<And>y p. s = p @ y \<Longrightarrow> matches_at rx y = []"
  shows "search rx s = None"
  using assms
proof (induction s)
  case Nil
  then show ?case using match_here_none [of "[]" rx] by simp
next
  case (Cons c cs)
  have "match_here rx (c # cs) = None"
    by (rule match_here_none) (rule Cons.prems)
  moreover have "search rx cs = None"
  proof (rule Cons.IH)
    fix y p assume "cs = p @ y"
    then have "c # cs = (c # p) @ y" by simp
    then show "matches_at rx y = []" by (rule Cons.prems)
  qed
  ultimately show ?case by simp
qed

lemma findall_none: "search rx s = None \<Longrightarrow> findall rx s = []"
  by (simp add: findall.simps)

lemma findall_some:
  "search rx s = Some (tok, rest) \<Longrightarrow> length rest < length s \<Longrightarrow>
   findall rx s = tok # findall rx rest"
  by (subst findall.simps) simp

subsection \<open>No match of a compiled expression is empty\<close>

lemma suffix_length: "s = p @ y \<Longrightarrow> length y \<le> length s"
  by simp

lemma rests_shorter:
  assumes "\<not> nullable i" "y \<in> set (rests i s)"
  shows "length y < length s"
proof (cases s)
  case Nil
  with assms show ?thesis by (cases i) auto
next
  case (Cons c cs)
  show ?thesis
  proof (cases i)
    case (One a)
    with assms Cons show ?thesis by (auto split: if_splits)
  next
    case (Plus a)
    with assms Cons have "y \<in> set (star_rests (accepts a) cs)" by (auto split: if_splits)
    from star_rests_suffix [OF this] Cons show ?thesis by auto
  next
    case (Star a)
    with assms show ?thesis by simp
  next
    case (Opt a)
    with assms show ?thesis by simp
  qed
qed

lemma seq_rests_shorter:
  "\<not> list_all nullable is \<Longrightarrow> y \<in> set (seq_rests is s) \<Longrightarrow> length y < length s"
proof (induction "is" arbitrary: s)
  case Nil
  then show ?case by simp
next
  case (Cons i "is")
  from Cons.prems(2) obtain r where r: "r \<in> set (rests i s)" "y \<in> set (seq_rests is r)"
    by auto
  from rests_suffix [OF r(1)] have l1: "length r \<le> length s" by auto
  from seq_rests_suffix [OF r(2)] have l2: "length y \<le> length r" by auto
  show ?case
  proof (cases "nullable i")
    case False
    from rests_shorter [OF False r(1)] l2 show ?thesis by simp
  next
    case True
    with Cons.prems(1) have "\<not> list_all nullable is" by simp
    from Cons.IH [OF this r(2)] l1 show ?thesis by simp
  qed
qed

lemma candidates_shorter:
  assumes "\<not> list_ex (list_all nullable) (alts rx)" and "(tok, rest) \<in> set (candidates rx s)"
  shows "length rest < length s"
proof -
  from assms(2) obtain r1 alt r2 where
    r: "r1 \<in> set (seq_rests (pre rx) s)" "alt \<in> set (alts rx)" "r2 \<in> set (seq_rests alt r1)"
       "rest \<in> set (seq_rests (post rx) r2)"
    by (auto simp: candidates_def)
  from assms(1) r(2) have "\<not> list_all nullable alt" by (auto simp: list_ex_iff)
  from seq_rests_shorter [OF this r(3)] have "length r2 < length r1" .
  moreover from seq_rests_suffix [OF r(1)] have "length r1 \<le> length s" by auto
  moreover from seq_rests_suffix [OF r(4)] have "length rest \<le> length r2" by auto
  ultimately show ?thesis by simp
qed

lemma search_shorter:
  assumes "\<not> list_ex (list_all nullable) (alts rx)" and "search rx s = Some (tok, rest)"
  shows "length rest < length s"
  using assms(2)
proof (induction s)
  case Nil
  then have "(tok, rest) \<in> set (candidates rx [])"
    by (auto simp: match_here_def split: list.splits)
  from candidates_shorter [OF assms(1) this] show ?case .
next
  case (Cons c cs)
  show ?case
  proof (cases "match_here rx (c # cs)")
    case None
    with Cons.prems have "search rx cs = Some (tok, rest)" by simp
    from Cons.IH [OF this] show ?thesis by simp
  next
    case (Some m)
    with Cons.prems have "(tok, rest) \<in> set (candidates rx (c # cs))"
      by (auto simp: match_here_def split: list.splits)
    from candidates_shorter [OF assms(1) this] show ?thesis .
  qed
qed

lemma re_compile_not_nullable:
  "re_compile p = Inr rx \<Longrightarrow> \<not> list_ex (list_all nullable) (alts rx)"
  unfolding re_compile_def
  by (auto split: sum.splits list.splits if_splits prod.splits)

lemma init_not_nullable:
  "init c = Inr self \<Longrightarrow> \<not> list_ex (list_all nullable) (alts (self_regex self))"
  unfolding init_def
  by (auto split: sum.splits dest: re_compile_not_nullable)

text \<open>
  So the last branch of \<open>findall\<close> is never taken for the expression of an object that
  the constructor has built.
\<close>

lemma findall_unfold:
  assumes "init c = Inr self"
  shows "findall (self_regex self) s =
         (case search (self_regex self) s of
            None \<Rightarrow> []
          | Some (tok, rest) \<Rightarrow> tok # findall (self_regex self) rest)"
proof (cases "search (self_regex self) s")
  case None
  then show ?thesis by (simp add: findall.simps)
next
  case (Some m)
  obtain tok rest where m: "m = (tok, rest)" by (cases m)
  from search_shorter [OF init_not_nullable [OF assms]] Some m
  have "length rest < length s" by simp
  then show ?thesis using Some m by (subst findall.simps) simp
qed

text \<open>The tokens are not empty either.\<close>

lemma candidates_token:
  assumes "\<not> list_ex (list_all nullable) (alts rx)" and "(tok, rest) \<in> set (candidates rx s)"
  shows "tok \<noteq> []"
proof -
  from assms(2) obtain r1 alt r2 where
    r: "alt \<in> set (alts rx)" "r2 \<in> set (seq_rests alt r1)"
       "tok = take (length r1 - length r2) r1"
    by (auto simp: candidates_def)
  from assms(1) r(1) have "\<not> list_all nullable alt" by (auto simp: list_ex_iff)
  from seq_rests_shorter [OF this r(2)] have "length r2 < length r1" .
  with r(3) show ?thesis by (cases r1) auto
qed

lemma search_token:
  assumes "\<not> list_ex (list_all nullable) (alts rx)" and "search rx s = Some (tok, rest)"
  shows "tok \<noteq> []"
  using assms(2)
proof (induction s)
  case Nil
  then have "(tok, rest) \<in> set (candidates rx [])"
    by (auto simp: match_here_def split: list.splits)
  from candidates_token [OF assms(1) this] show ?case .
next
  case (Cons c cs)
  show ?case
  proof (cases "match_here rx (c # cs)")
    case None
    with Cons.prems have "search rx cs = Some (tok, rest)" by simp
    from Cons.IH [OF this] show ?thesis .
  next
    case (Some m)
    with Cons.prems have "(tok, rest) \<in> set (candidates rx (c # cs))"
      by (auto simp: match_here_def split: list.splits)
    from candidates_token [OF assms(1) this] show ?thesis .
  qed
qed

lemma findall_tokens_not_empty:
  assumes "\<not> list_ex (list_all nullable) (alts rx)"
  shows "list_all (\<lambda>i. i \<noteq> []) (findall rx s)"
  using assms
proof (induction rx s rule: findall.induct)
  case (1 rx s)
  show ?case
  proof (cases "search rx s")
    case None
    then show ?thesis by (simp add: findall.simps)
  next
    case (Some m)
    obtain tok rest where m: "m = (tok, rest)" by (cases m)
    show ?thesis
    proof (cases "length rest < length s")
      case True
      from "1.IH" [OF Some [unfolded m] refl True] "1.prems"
      have "list_all (\<lambda>i. i \<noteq> []) (findall rx rest)" by simp
      moreover from search_token [OF "1.prems" Some [unfolded m]] have "tok \<noteq> []" .
      ultimately show ?thesis using Some m True by (subst findall.simps) simp
    next
      case False
      then show ?thesis using Some m by (subst findall.simps) simp
    qed
  qed
qed

lemma init_tokens_not_empty:
  "init c = Inr self \<Longrightarrow> list_all (\<lambda>i. i \<noteq> []) (findall (self_regex self) s)"
  by (rule findall_tokens_not_empty) (rule init_not_nullable)

subsection \<open>The alternatives of the expected expression\<close>

lemma bare_rests:
  "seq_rests (bare seps) [] = []"
  "c \<in> set seps \<Longrightarrow> seq_rests (bare seps) (c # cs) = []"
  "c \<notin> set seps \<Longrightarrow>
     \<exists>rs. seq_rests (bare seps) (c # cs) = dropWhile (\<lambda>x. x \<notin> set seps) (c # cs) # rs"
proof -
  show "seq_rests (bare seps) [] = []" by (simp add: bare_def)
  show "c \<in> set seps \<Longrightarrow> seq_rests (bare seps) (c # cs) = []" by (simp add: bare_def)
  assume "c \<notin> set seps"
  then show "\<exists>rs. seq_rests (bare seps) (c # cs) = dropWhile (\<lambda>x. x \<notin> set seps) (c # cs) # rs"
    using star_rests_first [of "\<lambda>x. x \<notin> set seps" cs]
    by (simp add: bare_def accepts_fun seq_rests_Nil_fun)
qed

lemma quoted_mismatch:
  "seq_rests (quoted q) [] = []"
  "c \<noteq> q \<Longrightarrow> seq_rests (quoted q) (c # cs) = []"
  by (simp_all add: quoted_def)

lemma close_quote:
  "q \<notin> set body \<Longrightarrow>
   concat (map (seq_rests [One (Lit q)]) (star_rests (\<lambda>c. c \<noteq> q) (body @ q # rest))) = [rest]"
  by (induction body) auto

lemma quoted_match:
  assumes "q \<notin> set body" "body \<noteq> []"
  shows "seq_rests (quoted q) (q # body @ q # rest) = [rest]"
proof -
  from assms obtain b bs where b: "body = b # bs" by (cases body) auto
  with assms(1) have "b \<noteq> q" "q \<notin> set bs" by auto
  then show ?thesis
    using close_quote [of q bs rest]
    by (simp add: quoted_def b accepts_fun)
qed

lemma quoted_unterminated:
  assumes "q \<notin> set r"
  shows "seq_rests (quoted q) (q # r) = []"
proof -
  have "seq_rests [Plus (In True [SLit q]), One (Lit q)] r = []"
    by (rule seq_rests_starved [of "One (Lit q)" _ "Lit q"])
       (use assms in \<open>auto simp: list_all_iff\<close>)
  then show ?thesis by (simp add: quoted_def)
qed

lemma marker_items_skip:
  assumes "c \<notin> set (markers gs)"
  shows "seq_rests (marker_items gs @ xs) (c # cs) =
         (if gs = [] \<or> None \<in> set gs then seq_rests xs (c # cs) else [])"
  using assms by (simp add: marker_items_def seq_rests_append)

lemma take_takeWhile: "take (length s - length (dropWhile P s)) s = takeWhile P s"
proof -
  have "length s - length (dropWhile P s) = length (takeWhile P s)"
    by (metis add_diff_cancel_right' length_append takeWhile_dropWhile_id)
  then show ?thesis
    by (metis append_eq_conv_conj takeWhile_dropWhile_id)
qed

abbreviation is_sep :: "pystr \<Rightarrow> nat \<Rightarrow> bool" where
  "is_sep seps \<equiv> (\<lambda>x. x \<in> set seps)"

abbreviation not_sep :: "pystr \<Rightarrow> nat \<Rightarrow> bool" where
  "not_sep seps \<equiv> (\<lambda>x. x \<notin> set seps)"

lemma post_expected: "post (expected seps qs gs) = [Star (In False (map SLit seps))]"
  by (simp add: expected_def)

lemma pre_expected: "pre (expected seps qs gs) = [Star (In False (SSpace # map SLit seps))]"
  by (simp add: expected_def)

text \<open>No alternative matches a text of separators without a quote.\<close>

lemma matches_at_separators:
  assumes "set y \<subseteq> set seps" and "\<And>q. q \<in> set qs \<Longrightarrow> q \<notin> set y"
  shows "matches_at (expected seps qs gs) y = []"
proof -
  have b: "seq_rests (xs @ bare seps) y = []" for xs
    by (rule seq_rests_starved [of "Plus (In True (map SLit seps))" _ "In True (map SLit seps)"])
       (use assms(1) in \<open>auto simp: bare_def list_all_iff\<close>)
  have q: "seq_rests (xs @ quoted q) y = []" if "q \<in> set qs" for xs q
    by (rule seq_rests_starved [of "One (Lit q)" _ "Lit q"])
       (use assms(2) [OF that] in \<open>auto simp: quoted_def list_all_iff\<close>)
  have "seq_rests alt y = []" if "alt \<in> set (alts (expected seps qs gs))" for alt
  proof (cases qs)
    case Nil
    with that b show ?thesis by (simp add: expected_def)
  next
    case (Cons q1 qs')
    with that consider "alt = marker_items gs @ quoted q1" | q' where "q' \<in> set qs'" "alt = quoted q'"
      | "alt = bare seps"
      by (auto simp: expected_def)
    then show ?thesis
    proof cases
      case 1
      then show ?thesis using q [of q1] Cons by simp
    next
      case 2
      then show ?thesis using q [of q' "[]"] Cons by simp
    next
      case 3
      then show ?thesis using b [of "[]"] by simp
    qed
  qed
  then show ?thesis
    by (simp add: matches_at_def alt_matches_Nil)
qed

text \<open>The alternatives, when the first character is not a marker.\<close>

lemma matches_at_uniform:
  assumes "c \<notin> set (markers gs)" and "gs = [] \<or> None \<in> set gs"
  shows "matches_at (expected seps qs gs) (c # cs) =
         concat (map (alt_matches [Star (In False (map SLit seps))] (c # cs))
                     (map quoted qs @ [bare seps]))"
proof -
  have "alt_matches po (c # cs) (marker_items gs @ xs) = alt_matches po (c # cs) xs" for po xs
    using marker_items_skip [OF assms(1), of xs cs] assms(2)
    by (simp add: alt_matches_def)
  then show ?thesis
    by (cases qs) (simp_all add: matches_at_def expected_def)
qed

lemma matches_at_mandatory:
  assumes "c \<notin> set (markers gs)" and "gs \<noteq> []" "None \<notin> set gs"
  shows "matches_at (expected seps (q # qs) gs) (c # cs) =
         concat (map (alt_matches [Star (In False (map SLit seps))] (c # cs))
                     (map quoted qs @ [bare seps]))"
proof -
  have "alt_matches po (c # cs) (marker_items gs @ xs) = []" for po xs
    using marker_items_skip [OF assms(1), of xs cs] assms(2,3)
    by (simp add: alt_matches_def)
  then show ?thesis
    by (simp add: matches_at_def expected_def)
qed

lemma alt_matches_bare:
  assumes "c \<notin> set seps"
  shows "\<exists>ms. alt_matches [Star (In False (map SLit seps))] (c # cs) (bare seps) =
           (takeWhile (not_sep seps) (c # cs),
            dropWhile (is_sep seps) (dropWhile (not_sep seps) (c # cs))) # ms"
proof -
  from bare_rests(3) [OF assms, of cs] obtain rs
    where "seq_rests (bare seps) (c # cs) = dropWhile (not_sep seps) (c # cs) # rs" by blast
  from alt_matches_first [OF this, of "In False (map SLit seps)"]
  show ?thesis unfolding take_takeWhile accepts_fun by blast
qed

text \<open>A bare token.\<close>

lemma matches_at_bare:
  assumes "c \<notin> set (markers gs)" "c \<notin> set seps"
    and "\<And>q. q \<in> set qs \<Longrightarrow> c = q \<Longrightarrow> q \<notin> set cs"
    and "qs \<noteq> [] \<or> gs = [] \<or> None \<in> set gs"
  shows "\<exists>ms. matches_at (expected seps qs gs) (c # cs) =
           (takeWhile (not_sep seps) (c # cs),
            dropWhile (is_sep seps) (dropWhile (not_sep seps) (c # cs))) # ms"
proof -
  let ?am = "alt_matches [Star (In False (map SLit seps))] (c # cs)"
  have q: "?am (quoted q) = []" if "q \<in> set qs" for q
  proof (cases "c = q")
    case True
    with assms(3) [OF that] show ?thesis
      using quoted_unterminated [of q cs] by (simp add: alt_matches_Nil)
  next
    case False
    then show ?thesis by (simp add: alt_matches_Nil quoted_mismatch)
  qed
  have all: "concat (map ?am (map quoted qs' @ [bare seps])) = ?am (bare seps)"
    if "set qs' \<subseteq> set qs" for qs'
    using that q by (induction qs') auto
  from alt_matches_bare [OF assms(2), of cs] obtain ms
    where b: "?am (bare seps) =
                (takeWhile (not_sep seps) (c # cs),
                 dropWhile (is_sep seps) (dropWhile (not_sep seps) (c # cs))) # ms"
    by blast
  show ?thesis
  proof (cases "gs = [] \<or> None \<in> set gs")
    case True
    have "matches_at (expected seps qs gs) (c # cs) = ?am (bare seps)"
      unfolding matches_at_uniform [OF assms(1) True] by (rule all) simp
    then show ?thesis unfolding b by blast
  next
    case False
    with assms(4) obtain q1 qs' where qs: "qs = q1 # qs'" by (cases qs) auto
    from False have g: "gs \<noteq> []" "None \<notin> set gs" by simp_all
    have "matches_at (expected seps qs gs) (c # cs) = ?am (bare seps)"
      unfolding qs matches_at_mandatory [OF assms(1) g] by (rule all) (simp add: qs subset_iff)
    then show ?thesis unfolding b by blast
  qed
qed

text \<open>A quoted token.\<close>

lemma matches_at_quoted:
  assumes "q \<in> set qs" "q \<notin> set (markers gs)" "gs = [] \<or> None \<in> set gs"
    and "q \<notin> set body" "body \<noteq> []"
  shows "\<exists>ms. matches_at (expected seps qs gs) (q # body @ q # rest) =
           (q # body @ [q], dropWhile (is_sep seps) rest) # ms"
proof -
  let ?r = "q # body @ q # rest"
  let ?am = "alt_matches [Star (In False (map SLit seps))] ?r"
  from split_list_first [OF assms(1)] obtain qs1 qs2
    where qs: "qs = qs1 @ q # qs2" "q \<notin> set qs1" by blast
  have skip: "concat (map ?am (map quoted qs1)) = []"
  proof -
    have "?am (quoted q') = []" if "q' \<in> set qs1" for q'
    proof -
      from that qs(2) have "q \<noteq> q'" by auto
      then show ?thesis by (simp add: alt_matches_Nil quoted_mismatch)
    qed
    then show ?thesis by simp
  qed
  have "seq_rests (quoted q) ?r = [rest]"
    by (rule quoted_match [OF assms(4,5)])
  from alt_matches_first [OF this, of "In False (map SLit seps)"] obtain ms
    where "?am (quoted q) =
             (take (length ?r - length rest) ?r, dropWhile (is_sep seps) rest) # ms"
    unfolding accepts_fun by blast
  moreover have "take (length ?r - length rest) ?r = q # body @ [q]" by simp
  ultimately have m: "?am (quoted q) = (q # body @ [q], dropWhile (is_sep seps) rest) # ms"
    by simp
  have "matches_at (expected seps qs gs) ?r =
          concat (map ?am (map quoted qs1)) @ ?am (quoted q) @
          concat (map ?am (map quoted qs2 @ [bare seps]))"
    unfolding matches_at_uniform [OF assms(2,3)] qs(1) by simp
  then show ?thesis unfolding skip m by simp
qed

subsection \<open>One token\<close>

lemma findall_token:
  assumes "list_all (\<lambda>c. isspace c \<or> c \<in> set seps) p"
    and "matches_at (expected seps qs gs) (x # b) = (tok, rest) # ms"
    and "\<And>y p'. isspace x \<or> x \<in> set seps \<Longrightarrow> b = p' @ y \<Longrightarrow>
           matches_at (expected seps qs gs) y = []"
    and "length rest \<le> length b"
  shows "findall (expected seps qs gs) (p @ x # b) = tok # findall (expected seps qs gs) rest"
proof -
  let ?rx = "expected seps qs gs"
  have "match_here ?rx (p @ x # b) = Some (tok, rest)"
  proof (rule match_here_at [of ?rx "In False (SSpace # map SLit seps)"])
    show "pre ?rx = [Star (In False (SSpace # map SLit seps))]" by (rule pre_expected)
    show "list_all (accepts (In False (SSpace # map SLit seps))) p"
      using assms(1) by (simp add: accepts_fun)
    show "matches_at ?rx (x # b) = (tok, rest) # ms" by (rule assms(2))
    show "matches_at ?rx y = []"
      if "accepts (In False (SSpace # map SLit seps)) x" "b = p' @ y" for y p'
      using that assms(3) by (simp add: accepts_fun)
  qed
  then have "search ?rx (p @ x # b) = Some (tok, rest)" by (rule search_here)
  moreover have "length rest < length (p @ x # b)" using assms(4) by simp
  ultimately show ?thesis by (rule findall_some)
qed

lemma findall_bare_token:
  assumes "list_all (\<lambda>c. isspace c \<or> c \<in> set seps) p"
    and "x \<notin> set seps" "x \<notin> set (markers gs)"
    and "\<And>q. q \<in> set qs \<Longrightarrow> x = q \<Longrightarrow> q \<notin> set b"
    and "qs \<noteq> [] \<or> gs = [] \<or> None \<in> set gs"
    and "\<And>y p'. isspace x \<Longrightarrow> b = p' @ y \<Longrightarrow> matches_at (expected seps qs gs) y = []"
  shows "findall (expected seps qs gs) (p @ x # b) =
         takeWhile (not_sep seps) (x # b) #
         findall (expected seps qs gs) (dropWhile (is_sep seps) (dropWhile (not_sep seps) (x # b)))"
proof -
  from matches_at_bare [OF assms(3,2,4,5)] obtain ms where
    m: "matches_at (expected seps qs gs) (x # b) =
          (takeWhile (not_sep seps) (x # b),
           dropWhile (is_sep seps) (dropWhile (not_sep seps) (x # b))) # ms"
    by blast
  have "length (dropWhile (is_sep seps) (dropWhile (not_sep seps) (x # b))) \<le>
        length (dropWhile (not_sep seps) (x # b))"
    by (rule length_dropWhile_le)
  also have "\<dots> \<le> length b" using assms(2) by (simp add: length_dropWhile_le)
  finally have l: "length (dropWhile (is_sep seps) (dropWhile (not_sep seps) (x # b))) \<le> length b" .
  show ?thesis
    by (rule findall_token [OF assms(1) m _ l]) (use assms(2,6) in auto)
qed

lemma findall_quoted_token:
  assumes "list_all (\<lambda>c. isspace c \<or> c \<in> set seps) p"
    and "q \<in> set qs" "\<not> isspace q" "q \<notin> set seps" "q \<notin> set (markers gs)"
    and "gs = [] \<or> None \<in> set gs"
    and "q \<notin> set body" "body \<noteq> []"
  shows "findall (expected seps qs gs) (p @ q # body @ q # rest) =
         (q # body @ [q]) # findall (expected seps qs gs) (dropWhile (is_sep seps) rest)"
proof -
  from matches_at_quoted [OF assms(2,5,6,7,8)] obtain ms where
    m: "matches_at (expected seps qs gs) (q # body @ q # rest) =
          (q # body @ [q], dropWhile (is_sep seps) rest) # ms"
    by blast
  have "length (dropWhile (is_sep seps) rest) \<le> length rest" by (rule length_dropWhile_le)
  then have l: "length (dropWhile (is_sep seps) rest) \<le> length (body @ q # rest)" by simp
  show ?thesis
    by (rule findall_token [OF assms(1) m _ l]) (use assms(3,4) in auto)
qed

lemma findall_separators:
  assumes "set v \<subseteq> set seps" and "\<And>q. q \<in> set qs \<Longrightarrow> q \<notin> set v"
  shows "findall (expected seps qs gs) v = []"
proof -
  have "matches_at (expected seps qs gs) y = []" if "v = p @ y" for y p
    by (rule matches_at_separators) (use assms that in auto)
  then have "search (expected seps qs gs) v = None" by (rule search_none)
  then show ?thesis by (rule findall_none)
qed

text \<open>The object built from an ordinary configuration.\<close>

lemma init_regex:
  assumes "init c = Inr self" "ordinary c"
  shows "separators c \<noteq> []"
    and "self_regex self = expected (separators c) (quote_list (quotes c)) (group_list (groups c))"
    and "self_groups self = group_list (groups c)"
    and "self_group self = (if group c = GroupTrue then GroupDict else group c)"
    and "self_normalize self = normalize c"
    and "self_sort self = sort' c"
    and "self_result self = result c"
proof -
  show s: "separators c \<noteq> []"
    using init_no_separators [OF assms(2)] assms(1) by auto
  from init_ordinary [OF assms(2) s] assms(1)
  show "self_regex self = expected (separators c) (quote_list (quotes c)) (group_list (groups c))"
    and "self_groups self = group_list (groups c)"
    and "self_group self = (if group c = GroupTrue then GroupDict else group c)"
    and "self_normalize self = normalize c"
    and "self_sort self = sort' c"
    and "self_result self = result c"
    by auto
qed

section \<open>The groups\<close>

subsection \<open>The dictionary\<close>

lemma map_of_setitem: "map_of (setitem d k v) = (map_of d)(k \<mapsto> v)"
proof (cases "map_of d k")
  case None
  then show ?thesis by (auto simp: setitem_def fun_eq_iff map_add_def split: option.splits)
next
  case (Some a)
  have "map_of (map (\<lambda>(k', v'). if k' = k then (k', v) else (k', v')) d) x =
        (if x = k then (case map_of d k of None \<Rightarrow> None | Some _ \<Rightarrow> Some v) else map_of d x)"
    for x
    by (induction d) auto
  with Some show ?thesis by (auto simp: setitem_def fun_eq_iff)
qed

lemma keys_setitem:
  "map fst (setitem d k v) = (if k \<in> set (map fst d) then map fst d else map fst d @ [k])"
proof -
  have "map fst (map (\<lambda>(k', v'). if k' = k then (k', v) else (k', v')) d) = map fst d"
    by (induction d) auto
  moreover have "(map_of d k = None) = (k \<notin> set (map fst d))"
    by (simp add: map_of_eq_None_iff)
  ultimately show ?thesis
    by (auto simp: setitem_def split: option.splits)
qed

lemma map_of_fold_setitem:
  "map_of (foldl (\<lambda>d i. setitem d i []) d0 gs) k =
     (if k \<in> set gs then Some [] else map_of d0 k)"
  by (induction gs arbitrary: d0) (auto simp: map_of_setitem)

lemma map_of_new_groups:
  "map_of (new_groups gs) k = (if k \<in> set gs \<or> k = None then Some [] else None)"
proof -
  let ?d = "foldl (\<lambda>d i. setitem d i []) [] gs"
  have m: "map_of ?d x = (if x \<in> set gs then Some [] else None)" for x
    by (simp add: map_of_fold_setitem)
  have "(None \<in> set (map fst ?d)) = (map_of ?d None \<noteq> None)"
    by (simp add: map_of_eq_None_iff)
  then have k: "(None \<in> set (map fst ?d)) = (None \<in> set gs)"
    by (simp only: m) simp
  show ?thesis
    unfolding new_groups_def Let_def k
    by (simp add: m map_of_setitem)
qed

text \<open>
  What the loop of \<open>split\<close> does with one term, said without the dictionary: the key
  under which a term is put, the text that is put there, and the list found under a key
  once every term has been put.
\<close>

definition key_of :: "nat option list \<Rightarrow> pystr \<Rightarrow> nat option" where
  "key_of gs i = (case i of [] \<Rightarrow> None | c # t \<Rightarrow> if Some c \<in> set gs then Some c else None)"

definition stored_as :: "nat option list \<Rightarrow> pystr \<Rightarrow> pystr" where
  "stored_as gs i = (case i of [] \<Rightarrow> [] | c # t \<Rightarrow> if Some c \<in> set gs then t else i)"

definition stored :: "nat option list \<Rightarrow> nat option \<Rightarrow> pystr list \<Rightarrow> pystr list" where
  "stored gs k ts = map (stored_as gs) (filter (\<lambda>i. key_of gs i = k) ts)"

lemma bucket_map_of:
  assumes "list_all (\<lambda>i. i \<noteq> []) ts"
    and "\<And>k. k \<in> set gs \<or> k = None \<Longrightarrow> map_of d0 k \<noteq> None"
  shows "\<exists>d. bucket gs d0 ts = Inr d \<and> map fst d = map fst d0 \<and>
           (\<forall>k. map_of d k = map_option (\<lambda>v. v @ stored gs k ts) (map_of d0 k))"
  using assms
proof (induction ts arbitrary: d0)
  case Nil
  show ?case by (simp add: stored_def option.map_ident)
next
  case (Cons i ts)
  from Cons.prems(1) obtain c t where i: "i = c # t" by (cases i) auto
  let ?k = "key_of gs i"
  have kin: "?k \<in> set gs \<or> ?k = None" by (auto simp: key_of_def i)
  then obtain v where v: "map_of d0 ?k = Some v" using Cons.prems(2) by blast
  let ?d1 = "setitem d0 ?k (v @ [stored_as gs i])"
  have step: "(if Some c \<in> set gs then append_to d0 (Some c) t else append_to d0 None i) = Inr ?d1"
    using v by (auto simp: append_to_def getitem_def key_of_def stored_as_def i)
  have dom1: "\<And>k. k \<in> set gs \<or> k = None \<Longrightarrow> map_of ?d1 k \<noteq> None"
    using Cons.prems(2) by (auto simp: map_of_setitem)
  from Cons.prems(1) have "list_all (\<lambda>i. i \<noteq> []) ts" by simp
  from Cons.IH [OF this dom1] obtain d where d: "bucket gs ?d1 ts = Inr d"
    "map fst d = map fst ?d1"
    "\<And>k. map_of d k = map_option (\<lambda>v. v @ stored gs k ts) (map_of ?d1 k)"
    by blast
  have keys: "map fst ?d1 = map fst d0"
    using v by (auto simp: keys_setitem dest: map_of_SomeD intro: rev_image_eqI)
  have "bucket gs d0 (i # ts) = Inr d"
    using step d(1) by (auto simp: i split: if_splits)
  moreover have "map fst d = map fst d0" using d(2) keys by simp
  moreover have "map_of d k = map_option (\<lambda>v. v @ stored gs k (i # ts)) (map_of d0 k)" for k
    using v by (cases "map_of d0 k") (auto simp: d(3) map_of_setitem stored_def)
  ultimately show ?case by blast
qed

lemma bucket_new_groups:
  assumes "list_all (\<lambda>i. i \<noteq> []) ts"
  shows "\<exists>d. bucket gs (new_groups gs) ts = Inr d \<and> map fst d = map fst (new_groups gs) \<and>
           (\<forall>k. getitem d k = (if k \<in> set gs \<or> k = None then Inr (stored gs k ts) else Inl KeyError))"
proof -
  have "\<And>k. k \<in> set gs \<or> k = None \<Longrightarrow> map_of (new_groups gs) k \<noteq> None"
    by (simp add: map_of_new_groups)
  from bucket_map_of [OF assms this] obtain d where d: "bucket gs (new_groups gs) ts = Inr d"
    "map fst d = map fst (new_groups gs)"
    "\<And>k. map_of d k = map_option (\<lambda>v. v @ stored gs k ts) (map_of (new_groups gs) k)"
    by blast
  have "getitem d k = (if k \<in> set gs \<or> k = None then Inr (stored gs k ts) else Inl KeyError)" for k
    by (simp add: getitem_def d(3) map_of_new_groups)
  with d(1,2) show ?thesis by blast
qed

lemma lists_of_known:
  assumes "\<And>k. k \<in> set gs \<Longrightarrow> getitem d k = Inr (f k)"
  shows "lists_of d gs = Inr (map f gs)"
  using assms by (induction gs) auto

lemma pairs_of_known:
  assumes "\<And>k. k \<in> set gs \<Longrightarrow> getitem d k = Inr (f k)"
  shows "pairs_of d gs = Inr (concat (map (\<lambda>g. map (Pair g) (f g)) gs))"
  using assms by (induction gs) auto

lemma stored_marker:
  "Some m \<in> set gs \<Longrightarrow> stored gs (Some m) ts = [t. c # t \<leftarrow> ts, c = m]"
  by (induction ts) (auto simp: stored_def key_of_def stored_as_def split: list.splits)

lemma stored_unmarked:
  "stored gs None ts = filter (\<lambda>i. key_of gs i = None) ts"
proof -
  have "key_of gs i = None \<Longrightarrow> stored_as gs i = i" for i
    by (auto simp: key_of_def stored_as_def split: list.splits if_splits)
  then show ?thesis
    by (induction ts) (auto simp: stored_def)
qed

lemma stored_marked_only:
  "k \<noteq> None \<Longrightarrow> stored gs k (filter (\<lambda>i. key_of gs i \<noteq> None) ts) = stored gs k ts"
  by (induction ts) (auto simp: stored_def)

lemma shaped_grouped:
  assumes "list_all (\<lambda>i. i \<noteq> []) ts" and "self_groups self \<noteq> []"
  shows "\<exists>d. bucket (self_groups self) (new_groups (self_groups self)) ts = Inr d \<and>
           shaped self ts = grouped self d \<and>
           map fst d = map fst (new_groups (self_groups self)) \<and>
           (\<forall>k. getitem d k =
              (if k \<in> set (self_groups self) \<or> k = None
               then Inr (stored (self_groups self) k ts) else Inl KeyError))"
proof -
  from bucket_new_groups [OF assms(1), of "self_groups self"] obtain d where
    d: "bucket (self_groups self) (new_groups (self_groups self)) ts = Inr d"
       "map fst d = map fst (new_groups (self_groups self))"
       "\<forall>k. getitem d k =
          (if k \<in> set (self_groups self) \<or> k = None
           then Inr (stored (self_groups self) k ts) else Inl KeyError)"
    by blast
  have "shaped self ts = grouped self d"
    using assms(2) d(1) by (simp add: shaped_def)
  with d show ?thesis by blast
qed

lemma split_terms: "terms self v = Inr ts \<Longrightarrow> split self (Str v) = shaped self ts"
  by (simp add: split_def)

lemma normalized_map: "normalized f ms = Inr ns \<Longrightarrow> map f ms = map Some ns"
  by (induction ms arbitrary: ns) (auto split: option.splits sum.splits)

section \<open>The claims\<close>

subsection \<open>C1: a token that starts with a quote\<close>

text \<open>
  C1 fails as it stands. A quoted alternative of the pattern, \<open>"[^"]+"\<close>, asks for the
  closing quote: where there is none the alternative does not match, and the token is the
  run of characters up to the next separator. With the defaults, \<open>"foo bar\<close> gives the
  two tokens \<open>"foo\<close> and \<open>bar\<close>, not the one token \<open>"foo bar\<close>.
\<close>

theorem quoted_token_counterexample:
  \<open>split_with default (Str (str ''"foo bar'')) = Inr (Terms (ListOf [str ''"foo'', str ''bar'']))\<close>
  by (simp add: split_with_def build_simps split_simps match_simps)

text \<open>
  C1, amended. For every configuration that the constructor accepts and that is ordinary
  (no separator and no marker is a backslash, \<open>]\<close> or \<open>^\<close>; \<open>-\<close> is at most the last of
  the separators and the last of the markers; no quote character is one of
  \<open>[ ] ( ) { ^ $ . | * + ?\<close> or a backslash; the markers are a list, and when the list is
  not empty it holds at least one marker character, so it is not \<open>[None]\<close>),
  with quoting on and with no markers or with \<open>None\<close> among the markers, and every
  configured quote character \<open>q\<close> that is not white space, not a separator and not a
  marker: where a token starts with
  \<open>q\<close> (after white space and separators), and \<open>q\<close> comes again with at least one
  character between, the token ends with that next \<open>q\<close> and holds both quotes and all
  that is between them, separators too; and where \<open>q\<close> does not come again, the token is
  the run of characters from \<open>q\<close> up to the next separator, \<open>q\<close> kept, and the matching
  goes on after it.
\<close>

theorem quoted_token:
  assumes "init c = Inr self" and "ordinary c"
    and "quotes c = Some qs" and "q \<in> set qs"
    and "group_list (groups c) = [] \<or> None \<in> set (group_list (groups c))"
    and "\<not> isspace q" and "q \<notin> set (separators c)"
    and "q \<notin> set (markers (group_list (groups c)))"
    and "list_all (\<lambda>x. isspace x \<or> x \<in> set (separators c)) lead"
  shows "(body \<noteq> [] \<and> q \<notin> set body \<longrightarrow>
            findall (self_regex self) (lead @ q # body @ q # rest) =
              (q # body @ [q]) #
              findall (self_regex self) (dropWhile (\<lambda>x. x \<in> set (separators c)) rest)) \<and>
         (q \<notin> set rest \<longrightarrow>
            findall (self_regex self) (lead @ q # rest) =
              takeWhile (\<lambda>x. x \<notin> set (separators c)) (q # rest) #
              findall (self_regex self)
                (dropWhile (\<lambda>x. x \<in> set (separators c))
                  (dropWhile (\<lambda>x. x \<notin> set (separators c)) (q # rest))))"
proof -
  let ?seps = "separators c" and ?gs = "group_list (groups c)"
  have rx: "self_regex self = expected ?seps qs ?gs"
    using init_regex(2) [OF assms(1,2)] assms(3) by (simp add: quote_list_def)
  have "findall (expected ?seps qs ?gs) (lead @ q # body @ q # rest) =
          (q # body @ [q]) # findall (expected ?seps qs ?gs) (dropWhile (is_sep ?seps) rest)"
    if "body \<noteq> []" "q \<notin> set body"
    by (rule findall_quoted_token [OF assms(9,4,6,7,8,5) that(2,1)])
  moreover have "findall (expected ?seps qs ?gs) (lead @ q # rest) =
          takeWhile (not_sep ?seps) (q # rest) #
          findall (expected ?seps qs ?gs)
            (dropWhile (is_sep ?seps) (dropWhile (not_sep ?seps) (q # rest)))"
    if "q \<notin> set rest"
  proof (rule findall_bare_token [OF assms(9,7,8)])
    show "q' \<notin> set rest" if "q' \<in> set qs" "q = q'" for q'
      using that \<open>q \<notin> set rest\<close> by simp
    show "qs \<noteq> [] \<or> ?gs = [] \<or> None \<in> set ?gs" using assms(4) by auto
    show "matches_at (expected ?seps qs ?gs) y = []" if "isspace q" for y
      using that assms(6) by simp
  qed
  ultimately show ?thesis unfolding rx by blast
qed

theorem quoted_token_witness:
  \<open>init search_parser = Inr search_object \<and> ordinary search_parser \<and>
   findall (self_regex search_object) (str '' "medical treatment" x'') =
     [str ''"medical treatment"'', str ''x''] \<and>
   findall (self_regex search_object) (str '' "foo bar'') = [str ''"foo'', str ''bar'']\<close>
proof -
  have o: "ordinary search_parser"
    by (simp add: ordinary_def search_parser_def default_def quote_list_def literal_char_def
        markers_def set_char_def)
  have a: "quotes search_parser = Some [34, 39]" "(34::nat) \<in> set [34, 39]"
    "group_list (groups search_parser) = [] \<or> None \<in> set (group_list (groups search_parser))"
    "\<not> isspace 34" "34 \<notin> set (separators search_parser)"
    "34 \<notin> set (markers (group_list (groups search_parser)))"
    "list_all (\<lambda>x. isspace x \<or> x \<in> set (separators search_parser)) [32]"
    by (simp_all add: search_parser_def default_def group_list_def markers_def isspace_def)
  note t = quoted_token [OF init_search_parser o a]
  have e1: \<open>findall (self_regex search_object) (dropWhile (\<lambda>x. x \<in> set (separators search_parser))
              (str '' x'')) = [str ''x'']\<close>
    by (simp add: search_parser_def default_def search_object_def match_simps)
  have e2: \<open>findall (self_regex search_object)
              (dropWhile (\<lambda>x. x \<in> set (separators search_parser))
                (dropWhile (\<lambda>x. x \<notin> set (separators search_parser)) (34 # str ''foo bar''))) =
            [str ''bar'']\<close>
    by (simp add: search_parser_def default_def search_object_def match_simps)
  have \<open>findall (self_regex search_object) (str '' "medical treatment" x'') =
        [str ''"medical treatment"'', str ''x'']\<close>
    using t [of "str ''medical treatment''" "str '' x''"] e1
    by (simp add: str_def)
  moreover have \<open>findall (self_regex search_object) (str '' "foo bar'') = [str ''"foo'', str ''bar'']\<close>
    using t [of _ "str ''foo bar''"] e2
    by (simp add: str_def search_parser_def default_def)
  ultimately show ?thesis using o init_search_parser by simp
qed

subsection \<open>C2: errors of the constructor\<close>

text \<open>
  The constructor checks nothing itself. With ordinary characters, and the markers given
  as a list, what it does is decided by the separators alone: with none the pattern ends
  in \<open>[^]+)[]*\<close>, where the first \<open>]\<close> does not close the set, the group is left open,
  and \<open>re.compile\<close> raises; with at least one the object is built.
\<close>

lemma init_fails_without_separators:
  assumes "ordinary c"
  shows "(init c = Inl ReError) = (separators c = [])"
    and "(\<exists>self. init c = Inr self) = (separators c \<noteq> [])"
  using init_no_separators [OF assms] init_ordinary [OF assms]
  by (cases "separators c = []"; simp)+

text \<open>
  C2. The claim says that nothing but an empty separator set makes the constructor fail.
  The docstring allows a string for \<open>groups\<close> (``E.g. \<open>'+-'\<close> or \<open>None\<close> to
  disable''), and the constructor raises a \<open>TypeError\<close> on both, with the default
  separators: on \<open>'+-'\<close> in \<open>None in groups\<close>, which a string does not allow, and on
  \<open>None\<close> in \<open>list(groups)\<close>.
\<close>

theorem init_groups_as_documented:
  "init (default\<lparr>groups := GroupsStr (str ''+-'')\<rparr>) = Inl (TypeError InRequiresString) \<and>
   init (default\<lparr>groups := GroupsNone\<rparr>) = Inl (TypeError NotIterable)"
  by (simp add: build_simps)

subsection \<open>C3: the notebook's search example\<close>

text \<open>
  C3. With separators space and tab, markers \<open>[None, '+', '-']\<close> and \<open>group=tuple\<close>,
  \<open>split\<close> of \<open>animals +cat -dog +"medical treatment"\<close> returns
  \<open>(['animals'], ['cat', '"medical treatment"'], ['dog'])\<close>: one list for each marker, in
  the order of the markers, each with the terms of its marker in the order of the input and
  without the marker.
\<close>

theorem search_parser_example:
  \<open>split_with search_parser (Str (str ''animals +cat -dog +"medical treatment"'')) =
     Inr (Sequences (TupleOf
       [[str ''animals''], [str ''cat'', str ''"medical treatment"''], [str ''dog'']]))\<close>
  by (simp add: split_with_def init_search_parser search_object_def split_simps match_simps)

subsection \<open>C4: a text with no quote and no marker\<close>

text \<open>
  The reference procedure, in the words of the claim: break the text on runs of separator
  characters and discard the empty pieces; then normalise and sort as configured, and give
  the result the configured shape (which is what \<open>split\<close> does with its matches).
  \<open>break_on\<close> breaks at every separator; the pieces between two separators of a run are
  empty and discarded.
\<close>

fun break_on :: "(nat \<Rightarrow> bool) \<Rightarrow> pystr \<Rightarrow> pystr list" where
  "break_on P [] = [[]]"
| "break_on P (c # cs) =
     (if P c then [] # break_on P cs
      else (case break_on P cs of [] \<Rightarrow> [[c]] | p # ps \<Rightarrow> (c # p) # ps))"

definition pieces :: "pystr \<Rightarrow> pystr \<Rightarrow> pystr list" where
  "pieces seps v = filter (\<lambda>p. p \<noteq> []) (break_on (\<lambda>c. c \<in> set seps) v)"

definition reference_split :: "pystr \<Rightarrow> processor \<Rightarrow> pystr \<Rightarrow> error + split_result" where
  "reference_split seps self v =
     (case prepared self (pieces seps v) of
        Inl e \<Rightarrow> Inl e
      | Inr matches \<Rightarrow> shaped self matches)"

definition reference_with :: "config \<Rightarrow> pystr \<Rightarrow> error + split_result" where
  "reference_with c v =
     (case init c of Inl e \<Rightarrow> Inl e | Inr self \<Rightarrow> reference_split (separators c) self v)"

lemma break_on_not_Nil [simp]: "break_on P v \<noteq> []"
  by (induction v) (auto split: list.splits)

lemma pieces_separator: "c \<in> set seps \<Longrightarrow> pieces seps (c # cs) = pieces seps cs"
  by (simp add: pieces_def)

lemma pieces_separators: "set p \<subseteq> set seps \<Longrightarrow> pieces seps (p @ v) = pieces seps v"
  by (induction p) (simp_all add: pieces_separator)

lemma pieces_dropWhile: "pieces seps (dropWhile (is_sep seps) v) = pieces seps v"
proof -
  have "pieces seps (takeWhile (is_sep seps) v @ dropWhile (is_sep seps) v) =
        pieces seps (dropWhile (is_sep seps) v)"
    by (rule pieces_separators) (auto dest: set_takeWhileD)
  then show ?thesis by simp
qed

lemma break_on_word:
  "set t \<inter> set seps = {} \<Longrightarrow>
   break_on (is_sep seps) (t @ r) =
     (t @ hd (break_on (is_sep seps) r)) # tl (break_on (is_sep seps) r)"
proof (induction t)
  case Nil
  then show ?case by simp
next
  case (Cons c t)
  then show ?case by (auto split: list.splits)
qed

lemma pieces_word:
  assumes "x \<notin> set seps"
  shows "pieces seps (x # b) =
         takeWhile (not_sep seps) (x # b) # pieces seps (dropWhile (not_sep seps) (x # b))"
proof -
  let ?t = "takeWhile (not_sep seps) (x # b)" and ?r = "dropWhile (not_sep seps) (x # b)"
  have t: "set ?t \<inter> set seps = {}"
    using set_takeWhileD [of _ "not_sep seps" "x # b"] by blast
  have ne: "?t \<noteq> []" using assms by simp
  have br: "break_on (is_sep seps) (?t @ ?r) =
          (?t @ hd (break_on (is_sep seps) ?r)) # tl (break_on (is_sep seps) ?r)"
    by (rule break_on_word [OF t])
  have "filter (\<lambda>p. p \<noteq> []) ((?t @ hd (break_on (is_sep seps) ?r)) # tl (break_on (is_sep seps) ?r)) =
        ?t # filter (\<lambda>p. p \<noteq> []) (break_on (is_sep seps) ?r)"
  proof (cases ?r)
    case Nil
    then show ?thesis using ne by simp
  next
    case (Cons y r')
    then have "y \<in> set seps" using hd_dropWhile [of "not_sep seps" "x # b"] by auto
    with Cons ne show ?thesis by simp
  qed
  with br show ?thesis unfolding pieces_def by (simp only: takeWhile_dropWhile_id)
qed

lemma pieces_none: "set v \<subseteq> set seps \<Longrightarrow> pieces seps v = []"
  using pieces_separators [of v seps "[]"] by (simp add: pieces_def)

text \<open>
  The matches of the expected expression are the pieces, on a text with no quote, no
  marker and no white space but separators.
\<close>

lemma findall_pieces:
  assumes "set v \<inter> set qs = {}" "set v \<inter> set (markers gs) = {}"
    and "\<And>x. x \<in> set v \<Longrightarrow> isspace x \<Longrightarrow> x \<in> set seps"
    and "qs \<noteq> [] \<or> gs = [] \<or> None \<in> set gs"
  shows "findall (expected seps qs gs) v = pieces seps v"
  using assms(1-3)
proof (induction "length v" arbitrary: v rule: less_induct)
  case less
  let ?p = "takeWhile (is_sep seps) v" and ?r = "dropWhile (is_sep seps) v"
  have v: "v = ?p @ ?r" by simp
  show ?case
  proof (cases ?r)
    case Nil
    then have s: "set v \<subseteq> set seps" by (metis dropWhile_eq_Nil_conv subsetI)
    have "findall (expected seps qs gs) v = []"
      by (rule findall_separators [OF s]) (use less.prems(1) in auto)
    then show ?thesis using pieces_none [OF s] by simp
  next
    case (Cons x b)
    then have x: "x \<notin> set seps" using hd_dropWhile [of "is_sep seps" v] by auto
    have xv: "x \<in> set v" and bv: "set b \<subseteq> set v"
      using Cons set_dropWhileD [of _ "is_sep seps" v] by (auto simp: subset_iff)
    have sp: "\<not> isspace x" using less.prems(3) [OF xv] x by blast
    let ?rest = "dropWhile (is_sep seps) (dropWhile (not_sep seps) (x # b))"
    have p0: "list_all (\<lambda>c. isspace c \<or> c \<in> set seps) ?p"
      by (auto simp: list_all_iff dest: set_takeWhileD)
    have "findall (expected seps qs gs) (?p @ x # b) =
          takeWhile (not_sep seps) (x # b) # findall (expected seps qs gs) ?rest"
    proof (rule findall_bare_token [OF p0 x _ _ assms(4)])
      show "x \<notin> set (markers gs)" using less.prems(2) xv by auto
      show "q \<notin> set b" if "q \<in> set qs" "x = q" for q
        using that less.prems(1) xv by auto
      show "matches_at (expected seps qs gs) y = []" if "isspace x" for y
        using that sp by simp
    qed
    then have f: "findall (expected seps qs gs) v =
          takeWhile (not_sep seps) (x # b) # findall (expected seps qs gs) ?rest"
      using v Cons by simp
    have sub: "set ?rest \<subseteq> set v"
    proof
      fix z assume "z \<in> set ?rest"
      then have "z \<in> set (dropWhile (not_sep seps) (x # b))" by (rule set_dropWhileD)
      then have "z \<in> set (x # b)" by (rule set_dropWhileD)
      with xv bv show "z \<in> set v" by auto
    qed
    have "length ?rest \<le> length (dropWhile (not_sep seps) (x # b))" by (rule length_dropWhile_le)
    also have "\<dots> \<le> length b" using x by (simp add: length_dropWhile_le)
    also have "\<dots> < length v" using v Cons by (metis length_append length_Cons less_add_Suc2 not_add_less2 not_less_eq linorder_neqE_nat)
    finally have len: "length ?rest < length v" .
    have ih: "findall (expected seps qs gs) ?rest = pieces seps ?rest"
      by (rule less.hyps [OF len]) (use sub less.prems in auto)
    have "pieces seps v = pieces seps (x # b)"
      using pieces_dropWhile [of seps v] Cons by simp
    also have "\<dots> = takeWhile (not_sep seps) (x # b) # pieces seps (dropWhile (not_sep seps) (x # b))"
      by (rule pieces_word [OF x])
    also have "pieces seps (dropWhile (not_sep seps) (x # b)) = pieces seps ?rest"
      by (rule pieces_dropWhile [symmetric])
    finally show ?thesis using f ih by simp
  qed
qed

text \<open>
  C4 fails as it stands. The pattern skips white space before a token, separator or not:
  with the default separators (space and tab) the text of a newline and \<open>a\<close> has the one
  piece \<open>\na\<close>, and the one match \<open>a\<close>. And when markers are configured without
  \<open>None\<close> and quoting is off, the pattern asks for a marker before every token: with
  \<open>quotes=None\<close>, \<open>groups=['+']\<close> and \<open>group=dict\<close> the text \<open>cat\<close> has the piece
  \<open>cat\<close> and no match.
\<close>

theorem split_refines_reference_counterexample:
  \<open>split_with default (Str (10 # str ''a'')) = Inr (Terms (ListOf [str ''a''])) \<and>
   reference_with default (10 # str ''a'') = Inr (Terms (ListOf [10 # str ''a''])) \<and>
   split_with (default\<lparr>quotes := None, groups := GroupsList [Some (ord CHR ''+'')],
                       group := GroupDict\<rparr>) (Str (str ''cat'')) =
     Inr (Mapping [(Some (ord CHR ''+''), []), (None, [])]) \<and>
   reference_with (default\<lparr>quotes := None, groups := GroupsList [Some (ord CHR ''+'')],
                           group := GroupDict\<rparr>) (str ''cat'') =
     Inr (Mapping [(Some (ord CHR ''+''), []), (None, [str ''cat''])])\<close>
  by (simp add: split_with_def reference_with_def reference_split_def pieces_def
      build_simps split_simps match_simps)

text \<open>
  C4, amended. For every configuration that the constructor accepts and that is ordinary
  (no separator and no marker is a backslash, \<open>]\<close> or \<open>^\<close>; \<open>-\<close> is at most the last of
  the separators and the last of the markers; no quote character is one of
  \<open>[ ] ( ) { ^ $ . | * + ?\<close> or a backslash; the markers are a list, and when the list is
  not empty it holds at least one marker character, so it is not \<open>[None]\<close>),
  in which quoting is on, or no markers are configured, or \<open>None\<close> is among the markers,
  and every text with no
  quote character, no marker character and no white space other than separator characters:
  \<open>split\<close> returns what the reference procedure returns.
\<close>

theorem split_refines_reference:
  assumes "init c = Inr self" and "ordinary c"
    and "set v \<inter> set (quote_list (quotes c)) = {}"
    and "set v \<inter> set (markers (group_list (groups c))) = {}"
    and "\<And>x. x \<in> set v \<Longrightarrow> isspace x \<Longrightarrow> x \<in> set (separators c)"
    and "quote_list (quotes c) \<noteq> [] \<or> group_list (groups c) = [] \<or>
         None \<in> set (group_list (groups c))"
  shows "split self (Str v) = reference_split (separators c) self v"
proof -
  have "findall (self_regex self) v = pieces (separators c) v"
    unfolding init_regex(2) [OF assms(1,2)]
    by (rule findall_pieces [OF assms(3,4,5,6)])
  then show ?thesis
    by (simp add: split_def terms_def reference_split_def)
qed

theorem split_refines_reference_witness:
  "init search_parser = Inr search_object \<and> ordinary search_parser \<and>
   split search_object (Str (str ''cat  dog'')) =
     Inr (Sequences (TupleOf [[str ''cat'', str ''dog''], [], []])) \<and>
   reference_split (separators search_parser) search_object (str ''cat  dog'') =
     Inr (Sequences (TupleOf [[str ''cat'', str ''dog''], [], []]))"
proof -
  have o: "ordinary search_parser"
    by (simp add: ordinary_def search_parser_def default_def quote_list_def literal_char_def
        markers_def set_char_def)
  have q: "set (str ''cat  dog'') \<inter> set (quote_list (quotes search_parser)) = {}"
    by (simp add: search_parser_def default_def quote_list_def str_def)
  have m: "set (str ''cat  dog'') \<inter> set (markers (group_list (groups search_parser))) = {}"
    by (simp add: search_parser_def default_def group_list_def markers_def str_def)
  have w: "x \<in> set (separators search_parser)" if "x \<in> set (str ''cat  dog'')" "isspace x" for x
    using that by (auto simp: search_parser_def default_def str_def isspace_def)
  have g: "quote_list (quotes search_parser) \<noteq> [] \<or> group_list (groups search_parser) = [] \<or>
           None \<in> set (group_list (groups search_parser))"
    by (simp add: search_parser_def default_def quote_list_def)
  have r: "reference_split (separators search_parser) search_object (str ''cat  dog'') =
           Inr (Sequences (TupleOf [[str ''cat'', str ''dog''], [], []]))"
    by (simp add: reference_split_def pieces_def search_parser_def default_def search_object_def
        prepared_def shaped_def grouped_def new_groups_def setitem_def getitem_def append_to_def
        str_def)
  from split_refines_reference [OF init_search_parser o q m w g] r o init_search_parser
  show ?thesis by simp
qed

subsection \<open>C5: the marker is taken off and names the group\<close>

text \<open>
  \<open>s.strip(chars)\<close>, which the docstring's example of a \<open>normalize\<close> uses.
\<close>

definition strip :: "pystr \<Rightarrow> pystr \<Rightarrow> pystr" where
  "strip chars s =
     rev (dropWhile (\<lambda>c. c \<in> set chars) (rev (dropWhile (\<lambda>c. c \<in> set chars) s)))"

text \<open>
  C5 fails as it stands. The loop of \<open>split\<close> looks at the terms, which are what
  \<open>normalize\<close> made of the tokens, not at the tokens. The search parser of the notebook
  with \<open>group=dict\<close> has the one token \<open>+"medical treatment"\<close> in the text
  \<open>+"medical treatment"\<close>, and stores \<open>"medical treatment"\<close> under \<open>+\<close>. With
  \<open>normalize=lambda s: s.strip('"')\<close> the same token is stored under \<open>+\<close> as
  \<open>"medical treatment\<close>, which is not the token without its first character; and with
  \<open>normalize=lambda s: s.strip('+"')\<close> it is stored under \<open>None\<close>, not under \<open>+\<close>.
\<close>

theorem marker_stripping_counterexample:
  \<open>split_with (search_parser\<lparr>group := GroupDict\<rparr>) (Str (str ''+"medical treatment"'')) =
     Inr (Mapping [(None, []), (Some PLUS, [str ''"medical treatment"'']), (Some DASH, [])]) \<and>
   split_with (search_parser\<lparr>group := GroupDict, normalize := Some (\<lambda>s. Some (strip [34] s))\<rparr>)
       (Str (str ''+"medical treatment"'')) =
     Inr (Mapping [(None, []), (Some PLUS, [str ''"medical treatment'']), (Some DASH, [])]) \<and>
   split_with (search_parser\<lparr>group := GroupDict, normalize := Some (\<lambda>s. Some (strip [PLUS, 34] s))\<rparr>)
       (Str (str ''+"medical treatment"'')) =
     Inr (Mapping [(None, [str ''medical treatment'']), (Some PLUS, []), (Some DASH, [])])\<close>
  by (simp add: split_with_def search_parser_def build_simps split_simps match_simps strip_def)

text \<open>
  C5, amended. For every object with markers and every marker \<open>m\<close> among them, when
  \<open>split\<close> has its terms and none of them is empty (no token is; on an empty term
  \<open>i[0]\<close> raises): the terms are the tokens when there is no \<open>normalize\<close>, and what
  \<open>normalize\<close> returned for the tokens when there is one, sorted when \<open>sort\<close> is set;
  and the loop of \<open>split\<close> puts every term \<open>m<rest>\<close> into the list \<open>groups[m]\<close>, as
  \<open><rest>\<close>, in the order of the terms, and nothing else gets there. So with no
  \<open>normalize\<close> every token \<open>m<term>\<close> is stored under \<open>m\<close> as \<open><term>\<close>.
\<close>

theorem marker_stripping:
  assumes "terms self v = Inr ts" and "list_all (\<lambda>i. i \<noteq> []) ts"
    and "Some m \<in> set (self_groups self)"
  shows "(self_normalize self = None \<longrightarrow>
            ts = (if self_sort self then sort (findall (self_regex self) v)
                  else findall (self_regex self) v)) \<and>
         (\<forall>f. self_normalize self = Some f \<longrightarrow>
            (\<exists>ns. map f (findall (self_regex self) v) = map Some ns \<and>
                  ts = (if self_sort self then sort ns else ns))) \<and>
         (\<exists>d. bucket (self_groups self) (new_groups (self_groups self)) ts = Inr d \<and>
              split self (Str v) = grouped self d \<and>
              getitem d (Some m) = Inr [t. c # t \<leftarrow> ts, c = m])"
proof -
  have a: "ts = (if self_sort self then sort (findall (self_regex self) v)
                 else findall (self_regex self) v)" if "self_normalize self = None"
    using assms(1) that by (auto simp: terms_def prepared_def)
  have b: "\<exists>ns. map f (findall (self_regex self) v) = map Some ns \<and>
                ts = (if self_sort self then sort ns else ns)" if "self_normalize self = Some f" for f
  proof -
    from assms(1) that obtain ns where
      ns: "normalized f (findall (self_regex self) v) = Inr ns"
          "ts = (if self_sort self then sort ns else ns)"
      by (auto simp: terms_def prepared_def split: sum.splits)
    from normalized_map [OF ns(1)] ns(2) show ?thesis by blast
  qed
  from assms(3) have "self_groups self \<noteq> []" by auto
  from shaped_grouped [OF assms(2) this] assms(3) split_terms [OF assms(1)]
  have c: "\<exists>d. bucket (self_groups self) (new_groups (self_groups self)) ts = Inr d \<and>
              split self (Str v) = grouped self d \<and>
              getitem d (Some m) = Inr [t. c # t \<leftarrow> ts, c = m]"
    by (auto simp: stored_marker)
  from a b c show ?thesis by blast
qed

theorem marker_stripping_witness:
  \<open>terms (search_object\<lparr>self_group := GroupDict\<rparr>) (str '' foo  -bar +"baz"diz       '') =
       Inr [str ''foo'', str ''-bar'', str ''+"baz"'', str ''diz''] \<and>
    findall (self_regex (search_object\<lparr>self_group := GroupDict\<rparr>))
       (str '' foo  -bar +"baz"diz       '') =
       [str ''foo'', str ''-bar'', str ''+"baz"'', str ''diz''] \<and>
    (\<exists>d. split (search_object\<lparr>self_group := GroupDict\<rparr>)
            (Str (str '' foo  -bar +"baz"diz       '')) = Inr (Mapping d) \<and>
          getitem d (Some (ord CHR ''-'')) = Inr [str ''bar''] \<and>
          getitem d (Some (ord CHR ''+'')) = Inr [str ''"baz"'']) \<and>
    (\<exists>ns. map (\<lambda>s. Some (strip [34] s))
            (findall (self_regex search_object) (str ''+"medical treatment"'')) = map Some ns \<and>
          [str ''+"medical treatment''] = ns) \<and>
    (\<exists>d. split (search_object\<lparr>self_group := GroupDict,
                       self_normalize := Some (\<lambda>s. Some (strip [34] s))\<rparr>)
            (Str (str ''+"medical treatment"'')) = Inr (Mapping d) \<and>
          getitem d (Some (ord CHR ''+'')) = Inr [str ''"medical treatment''])\<close>
proof -
  let ?f = "\<lambda>s. Some (strip [34] s)"
  let ?self' = "search_object\<lparr>self_group := GroupDict, self_normalize := Some ?f\<rparr>"
  have t': \<open>terms ?self' (str ''+"medical treatment"'') = Inr [str ''+"medical treatment'']\<close>
    by (simp add: search_object_def terms_def prepared_def match_simps strip_def)
  have n': \<open>list_all (\<lambda>i. i \<noteq> []) [str ''+"medical treatment'']\<close>
    by (simp add: str_def)
  have g': "Some (ord CHR ''+'') \<in> set (self_groups ?self')"
    by (simp add: search_object_def)
  have s': "self_normalize ?self' = Some ?f" "\<not> self_sort ?self'"
       "self_regex ?self' = self_regex search_object"
    by (simp_all add: search_object_def)
  note strip = marker_stripping [OF t' n' g']
  from strip [THEN conjunct2, THEN conjunct1] s'
  have f': \<open>\<exists>ns. map ?f (findall (self_regex search_object) (str ''+"medical treatment"'')) =
              map Some ns \<and> [str ''+"medical treatment''] = ns\<close>
    by metis
  from strip [THEN conjunct2, THEN conjunct2]
  have d': \<open>\<exists>d. split ?self' (Str (str ''+"medical treatment"'')) = Inr (Mapping d) \<and>
          getitem d (Some (ord CHR ''+'')) = Inr [str ''"medical treatment'']\<close>
    by (auto simp: grouped_def search_object_def str_def)
  let ?self = "search_object\<lparr>self_group := GroupDict\<rparr>"
  have t: \<open>terms ?self (str '' foo  -bar +"baz"diz       '') =
       Inr [str ''foo'', str ''-bar'', str ''+"baz"'', str ''diz'']\<close>
    by (simp add: search_object_def terms_def prepared_def match_simps)
  have n: \<open>list_all (\<lambda>i. i \<noteq> []) [str ''foo'', str ''-bar'', str ''+"baz"'', str ''diz'']\<close>
    by (simp add: str_def)
  have g: "Some (ord CHR ''-'') \<in> set (self_groups ?self)"
     "Some (ord CHR ''+'') \<in> set (self_groups ?self)"
    by (simp_all add: search_object_def)
  have s: "self_normalize ?self = None" "\<not> self_sort ?self"
    by (simp_all add: search_object_def)
  note dash = marker_stripping [OF t n g(1)] and plus = marker_stripping [OF t n g(2)]
  from dash s have f: \<open>findall (self_regex ?self) (str '' foo  -bar +"baz"diz       '') =
       [str ''foo'', str ''-bar'', str ''+"baz"'', str ''diz'']\<close>
    by metis
  from dash [THEN conjunct2, THEN conjunct2] plus [THEN conjunct2, THEN conjunct2]
  have \<open>\<exists>d. split ?self (Str (str '' foo  -bar +"baz"diz       '')) = Inr (Mapping d) \<and>
          getitem d (Some (ord CHR ''-'')) = Inr [str ''bar''] \<and>
          getitem d (Some (ord CHR ''+'')) = Inr [str ''"baz"'']\<close>
    by (auto simp: grouped_def search_object_def str_def)
  with t f f' d' show ?thesis by blast
qed

subsection \<open>C6: a text of separators\<close>

lemma setitem_values:
  "list_all (\<lambda>kv. snd kv = []) d \<Longrightarrow> list_all (\<lambda>kv. snd kv = []) (setitem d k [])"
  by (auto simp: setitem_def list_all_iff split: option.splits)

lemma new_groups_values: "list_all (\<lambda>kv. snd kv = []) (new_groups gs)"
proof -
  have "list_all (\<lambda>kv. snd kv = []) d \<Longrightarrow>
        list_all (\<lambda>kv. snd kv = []) (foldl (\<lambda>d i. setitem d i []) d gs)" for d
    by (induction gs arbitrary: d) (simp_all add: setitem_values)
  then have "list_all (\<lambda>kv. snd kv = []) (foldl (\<lambda>d i. setitem d i []) [] gs)" by simp
  then show ?thesis by (simp add: new_groups_def Let_def setitem_values)
qed

lemma terms_no_match: "findall (self_regex self) v = [] \<Longrightarrow> terms self v = Inr []"
  by (simp add: terms_def prepared_def split: option.splits)

text \<open>
  C6 fails as it stands: a quote character may be a separator too, and then a text of
  separators can hold a quoted token. With separators space and \<open>"\<close>, the text \<open>" "\<close> is
  one token.
\<close>

theorem only_separators_counterexample:
  \<open>set (str ''" "'') \<subseteq> set (separators (default\<lparr>separators := str '' "''\<rparr>)) \<and>
   split_with (default\<lparr>separators := str '' "''\<rparr>) (Str (str ''" "'')) =
     Inr (Terms (ListOf [str ''" "'']))\<close>
  by (simp add: split_with_def build_simps split_simps match_simps)

text \<open>
  C6, amended. For every configuration that the constructor accepts and that is ordinary
  (no separator and no marker is a backslash, \<open>]\<close> or \<open>^\<close>; \<open>-\<close> is at most the last of
  the separators and the last of the markers; no quote character is one of
  \<open>[ ] ( ) { ^ $ . | * + ?\<close> or a backslash; the markers are a list, and when the list is
  not empty it holds at least one marker character, so it is not \<open>[None]\<close>),
  in which no quote character is a separator, and every text of separator characters only
  (the empty text too): with
  no markers \<open>split\<close> returns the empty sequence of the configured type, and with markers
  and \<open>group=dict\<close> it returns a mapping in which every marker is a key, and every key
  has the empty list.
\<close>

theorem only_separators:
  assumes "init c = Inr self" and "ordinary c"
    and "set (quote_list (quotes c)) \<inter> set (separators c) = {}"
    and "set v \<subseteq> set (separators c)"
  shows "(self_groups self = [] \<longrightarrow>
            split self (Str v) = Inr (Terms (collect (self_result self) []))) \<and>
         (self_groups self \<noteq> [] \<and> self_group self = GroupDict \<longrightarrow>
            (\<exists>d. split self (Str v) = Inr (Mapping d) \<and>
                 (\<forall>g \<in> set (self_groups self). map_of d g = Some []) \<and>
                 list_all (\<lambda>kv. snd kv = []) d))"
proof -
  have "findall (expected (separators c) (quote_list (quotes c)) (group_list (groups c))) v = []"
    by (rule findall_separators) (use assms(3,4) in auto)
  then have "terms self v = Inr []"
    using init_regex(2) [OF assms(1,2)] by (simp add: terms_no_match)
  then have s: "split self (Str v) = shaped self []" by (rule split_terms)
  have "shaped self [] = Inr (Mapping (new_groups (self_groups self)))"
    if "self_groups self \<noteq> []" "self_group self = GroupDict"
    using that by (simp add: shaped_def grouped_def)
  moreover have "\<forall>g \<in> set (self_groups self). map_of (new_groups (self_groups self)) g = Some []"
    by (simp add: map_of_new_groups)
  ultimately show ?thesis
    using s new_groups_values [of "self_groups self"] by (auto simp: shaped_def)
qed

lemma init_search_dict:
  "init (search_parser\<lparr>group := GroupDict\<rparr>) = Inr (search_object\<lparr>self_group := GroupDict\<rparr>)"
  by (simp add: search_parser_def search_object_def build_simps)

lemma ordinary_search_parser: "ordinary (search_parser\<lparr>group := g\<rparr>)"
  by (simp add: ordinary_def search_parser_def default_def quote_list_def literal_char_def
      markers_def set_char_def)

theorem only_separators_witness:
  "init (search_parser\<lparr>group := GroupDict\<rparr>) = Inr (search_object\<lparr>self_group := GroupDict\<rparr>) \<and>
   ordinary (search_parser\<lparr>group := GroupDict\<rparr>) \<and>
   split (search_object\<lparr>self_group := GroupDict\<rparr>) (Str [32, 9, 32]) =
     Inr (Mapping [(None, []), (Some 43, []), (Some 45, [])])"
proof -
  let ?c = "search_parser\<lparr>group := GroupDict\<rparr>"
  let ?self = "search_object\<lparr>self_group := GroupDict\<rparr>"
  have q: "set (quote_list (quotes ?c)) \<inter> set (separators ?c) = {}"
    by (simp add: search_parser_def default_def quote_list_def)
  have v: "set [32, 9, 32] \<subseteq> set (separators ?c)"
    by (simp add: search_parser_def default_def)
  from only_separators [OF init_search_dict ordinary_search_parser q v]
  obtain d where d: "split ?self (Str [32, 9, 32]) = Inr (Mapping d)"
    by (auto simp: search_object_def)
  have "split ?self (Str [32, 9, 32]) = Inr (Mapping [(None, []), (Some 43, []), (Some 45, [])])"
    by (simp add: search_object_def split_simps match_simps)
  with d init_search_dict ordinary_search_parser show ?thesis by simp
qed

subsection \<open>C7: split, join, split again\<close>

text \<open>
  The tokens of a text with no quote, under an expression without markers: each is a run
  of characters that are not separators. The first character of a token is not white
  space, but for one case: where only white space and separators are left, the last
  white-space character that is not a separator is a token of its own, the last one.
\<close>

definition token_ok :: "pystr \<Rightarrow> nat set \<Rightarrow> pystr \<Rightarrow> bool" where
  "token_ok seps A t = (t \<noteq> [] \<and> set t \<inter> set seps = {} \<and> set t \<subseteq> A)"

fun tokens_ok :: "pystr \<Rightarrow> nat set \<Rightarrow> pystr list \<Rightarrow> bool" where
  "tokens_ok seps A [] = True"
| "tokens_ok seps A [t] = (token_ok seps A t \<and> (\<not> isspace (hd t) \<or> length t = 1))"
| "tokens_ok seps A (t # u # ts) =
     (token_ok seps A t \<and> \<not> isspace (hd t) \<and> tokens_ok seps A (u # ts))"

lemma tokens_ok_Cons:
  "token_ok seps A t \<Longrightarrow> \<not> isspace (hd t) \<Longrightarrow> tokens_ok seps A ts \<Longrightarrow>
   tokens_ok seps A (t # ts)"
  by (cases ts) simp_all

lemma tokens_ok_all:
  "list_all (\<lambda>t. token_ok seps A t \<and> \<not> isspace (hd t)) ts \<Longrightarrow> tokens_ok seps A ts"
  by (induction ts rule: tokens_ok.induct) simp_all

lemma tokens_ok_mono: "tokens_ok seps A ts \<Longrightarrow> A \<subseteq> B \<Longrightarrow> tokens_ok seps B ts"
  by (induction ts rule: tokens_ok.induct) (auto simp: token_ok_def)

lemma tokens_ok_set: "tokens_ok seps A ts \<Longrightarrow> t \<in> set ts \<Longrightarrow> token_ok seps A t"
  by (induction ts rule: tokens_ok.induct) auto

lemma findall_Nil: "findall (expected seps qs gs) [] = []"
  by (rule findall_separators) simp_all

lemma takeWhile_token:
  "set t \<inter> set seps = {} \<Longrightarrow> takeWhile (not_sep seps) t = t"
  by (induction t) auto

lemma dropWhile_token:
  "set t \<inter> set seps = {} \<Longrightarrow> dropWhile (not_sep seps) t = []"
  by (induction t) auto

lemma last_token:
  assumes "x \<notin> set seps" "set b \<subseteq> set seps"
  shows "takeWhile (not_sep seps) (x # b) = [x]"
    and "dropWhile (is_sep seps) (dropWhile (not_sep seps) (x # b)) = []"
proof -
  have t: "takeWhile (not_sep seps) b = []" using assms(2) by (cases b) auto
  then show "takeWhile (not_sep seps) (x # b) = [x]" using assms(1) by simp
  have "dropWhile (not_sep seps) b = takeWhile (not_sep seps) b @ dropWhile (not_sep seps) b"
    unfolding t by simp
  then have "dropWhile (not_sep seps) (x # b) = b" using assms(1) by simp
  moreover have "dropWhile (is_sep seps) b = []" using assms(2) by auto
  ultimately show "dropWhile (is_sep seps) (dropWhile (not_sep seps) (x # b)) = []" by simp
qed

text \<open>The tokens found in a text are well formed.\<close>

lemma findall_tokens_ok:
  assumes "set v \<inter> set qs = {}"
  shows "tokens_ok seps (set v) (findall (expected seps qs []) v)"
  using assms
proof (induction "length v" arbitrary: v rule: less_induct)
  case less
  let ?rx = "expected seps qs []"
  have step: "tokens_ok seps (set v) (findall ?rx v)"
    if v: "v = p @ x # b" and p: "list_all (\<lambda>c. isspace c \<or> c \<in> set seps) p"
      and x: "x \<notin> set seps" and b: "isspace x \<Longrightarrow> set b \<subseteq> set seps" for p x b
  proof -
    let ?tok = "takeWhile (not_sep seps) (x # b)"
    let ?rest = "dropWhile (is_sep seps) (dropWhile (not_sep seps) (x # b))"
    have f: "findall ?rx (p @ x # b) = ?tok # findall ?rx ?rest"
    proof (rule findall_bare_token [OF p x])
      show "x \<notin> set (markers [])" by (simp add: markers_def)
      show "q \<notin> set b" if "q \<in> set qs" "x = q" for q
        using that less.prems v by auto
      show "qs \<noteq> [] \<or> [] = [] \<or> None \<in> set []" by simp
      show "matches_at ?rx y = []" if "isspace x" "b = p' @ y" for y p'
        by (rule matches_at_separators) (use that b less.prems v in auto)
    qed
    have sub: "set ?rest \<subseteq> set v"
    proof
      fix z assume "z \<in> set ?rest"
      then have "z \<in> set (dropWhile (not_sep seps) (x # b))" by (rule set_dropWhileD)
      then have "z \<in> set (x # b)" by (rule set_dropWhileD)
      with v show "z \<in> set v" by auto
    qed
    have "length ?rest \<le> length (dropWhile (not_sep seps) (x # b))" by (rule length_dropWhile_le)
    also have "\<dots> \<le> length b" using x by (simp add: length_dropWhile_le)
    also have "\<dots> < length v" using v by simp
    finally have len: "length ?rest < length v" .
    have "tokens_ok seps (set ?rest) (findall ?rx ?rest)"
      by (rule less.hyps [OF len]) (use sub less.prems in blast)
    then have ih: "tokens_ok seps (set v) (findall ?rx ?rest)"
      using sub by (rule tokens_ok_mono)
    have xb: "set (x # b) \<subseteq> set v" using v by auto
    have "set ?tok \<subseteq> set (x # b)" "set ?tok \<inter> set seps = {}"
      using set_takeWhileD [of _ "not_sep seps" "x # b"] by blast+
    moreover have "?tok \<noteq> []" using x by simp
    ultimately have tok: "token_ok seps (set v) ?tok"
      unfolding token_ok_def using xb by blast
    show ?thesis
    proof (cases "isspace x")
      case False
      then have "\<not> isspace (hd ?tok)" using x by simp
      from tokens_ok_Cons [OF tok this ih] show ?thesis using f v by simp
    next
      case True
      have l: "?tok = [x]" "?rest = []" by (rule last_token [OF x b [OF True]])+
      have "findall ?rx (p @ x # b) = [[x]]" unfolding f l by (simp add: findall_Nil)
      moreover have "token_ok seps (set v) [x]" using tok unfolding l .
      ultimately show ?thesis using v by simp
    qed
  qed
  show ?case
  proof (cases "\<exists>x \<in> set v. \<not> (isspace x \<or> x \<in> set seps)")
    case True
    from split_list_first_prop [OF True] obtain p x b where
      "v = p @ x # b" "\<not> (isspace x \<or> x \<in> set seps)" "\<forall>y \<in> set p. \<not> \<not> (isspace y \<or> y \<in> set seps)"
      by blast
    then show ?thesis by (intro step [of p x b]) (simp_all add: list_all_iff)
  next
    case allp: False
    show ?thesis
    proof (cases "\<exists>x \<in> set v. x \<notin> set seps")
      case True
      from split_list_last_prop [OF True] obtain p x b where
        d: "v = p @ x # b" "x \<notin> set seps" "\<forall>y \<in> set b. \<not> y \<notin> set seps"
        by blast
      show ?thesis
      proof (rule step [of p x b])
        show "v = p @ x # b" by (rule d(1))
        show "list_all (\<lambda>c. isspace c \<or> c \<in> set seps) p" using allp d(1) by (auto simp: list_all_iff)
        show "x \<notin> set seps" by (rule d(2))
        show "set b \<subseteq> set seps" using d(3) by auto
      qed
    next
      case False
      then have "set v \<subseteq> set seps" by auto
      then have "findall ?rx v = []"
        by (rule findall_separators) (use less.prems in auto)
      then show ?thesis by simp
    qed
  qed
qed


text \<open>Joined with a separator, well-formed tokens are found again.\<close>

lemma token_then_separator:
  "set t \<inter> set seps = {} \<Longrightarrow> c0 \<in> set seps \<Longrightarrow>
   takeWhile (not_sep seps) (t @ c0 # r) = t \<and> dropWhile (not_sep seps) (t @ c0 # r) = c0 # r"
  by (induction t) auto

lemma join_starts:
  "u \<noteq> [] \<Longrightarrow> set u \<inter> set seps = {} \<Longrightarrow>
   dropWhile (is_sep seps) (join c0 (u # ts)) = join c0 (u # ts)"
  by (cases u; cases ts) auto

lemma findall_join:
  "tokens_ok seps A ts \<Longrightarrow> c0 \<in> set seps \<Longrightarrow> A \<inter> set qs = {} \<Longrightarrow>
   findall (expected seps qs []) (join c0 ts) = ts"
proof (induction seps A ts rule: tokens_ok.induct)
  case (1 seps A)
  then show ?case by (simp add: findall_Nil)
next
  case (2 seps A t)
  let ?rx = "expected seps qs []"
  from "2.prems"(1) have t: "t \<noteq> []" "set t \<inter> set seps = {}" "set t \<subseteq> A"
    and l: "\<not> isspace (hd t) \<or> length t = 1"
    by (simp_all add: token_ok_def)
  from t(1) obtain x b where xb: "t = x # b" by (cases t) auto
  have "findall ?rx ([] @ x # b) =
        takeWhile (not_sep seps) (x # b) #
        findall ?rx (dropWhile (is_sep seps) (dropWhile (not_sep seps) (x # b)))"
  proof (rule findall_bare_token)
    show "list_all (\<lambda>c. isspace c \<or> c \<in> set seps) []" by simp
    show "x \<notin> set seps" using t(2) xb by auto
    show "x \<notin> set (markers [])" by (simp add: markers_def)
    show "q \<notin> set b" if "q \<in> set qs" "x = q" for q
      using that t(3) xb "2.prems"(3) by auto
    show "qs \<noteq> [] \<or> [] = [] \<or> None \<in> set []" by simp
    show "matches_at ?rx y = []" if "isspace x" "b = p' @ y" for y p'
    proof -
      from that l xb have "y = []" by simp
      then show ?thesis using matches_at_separators [of "[]" seps qs "[]"] by simp
    qed
  qed
  then show ?case
    using takeWhile_token [OF t(2)] dropWhile_token [OF t(2)] xb by (simp add: findall_Nil)
next
  case (3 seps A t u ts)
  let ?rx = "expected seps qs []"
  let ?J = "join c0 (u # ts)"
  from "3.prems"(1) have t: "t \<noteq> []" "set t \<inter> set seps = {}" "set t \<subseteq> A"
    and h: "\<not> isspace (hd t)" and r: "tokens_ok seps A (u # ts)"
    by (simp_all add: token_ok_def)
  from r have u: "u \<noteq> []" "set u \<inter> set seps = {}"
    using tokens_ok_set [OF r, of u] by (simp_all add: token_ok_def)
  from t(1) obtain x b where xb: "t = x # b" by (cases t) auto
  have "findall ?rx ([] @ x # (b @ c0 # ?J)) =
        takeWhile (not_sep seps) (x # (b @ c0 # ?J)) #
        findall ?rx (dropWhile (is_sep seps) (dropWhile (not_sep seps) (x # (b @ c0 # ?J))))"
  proof (rule findall_bare_token)
    show "list_all (\<lambda>c. isspace c \<or> c \<in> set seps) []" by simp
    show "x \<notin> set seps" using t(2) xb by auto
    show "x \<notin> set (markers [])" by (simp add: markers_def)
    show "q \<notin> set (b @ c0 # ?J)" if "q \<in> set qs" "x = q" for q
      using that t(3) xb "3.prems"(3) by auto
    show "qs \<noteq> [] \<or> [] = [] \<or> None \<in> set []" by simp
    show "matches_at ?rx y = []" if "isspace x" for y
      using that h xb by simp
  qed
  moreover have "takeWhile (not_sep seps) (t @ c0 # ?J) = t"
    "dropWhile (not_sep seps) (t @ c0 # ?J) = c0 # ?J"
    using token_then_separator [OF t(2) "3.prems"(2), of ?J] by simp_all
  moreover have "dropWhile (is_sep seps) (c0 # ?J) = ?J"
    using join_starts [OF u, of c0 ts] "3.prems"(2) by simp
  moreover have "findall ?rx ?J = u # ts"
    by (rule "3.IH" [OF r "3.prems"(2,3)])
  ultimately show ?case using xb by simp
qed

lemma normalized_Some: "normalized Some ms = Inr ms"
  by (induction ms) simp_all

lemma prepared_identity:
  assumes "self_normalize self = None \<or> self_normalize self = Some Some"
  shows "prepared self ms = Inr (if self_sort self then sort ms else ms)"
  using assms by (auto simp: prepared_def normalized_Some)

text \<open>
  C7 fails as it stands. A white-space character that is not a separator can be a token of
  its own, at the end of the text, and before a term the pattern skips it; sorting can
  move such a token to the front. With the defaults and \<open>sort=True\<close>, the text of
  \<open>b\<close>, a space and a newline has the terms newline and \<open>b\<close>, in this order; they are
  joined to newline, space, \<open>b\<close>, which has the one term \<open>b\<close>.
\<close>

theorem round_trip_counterexample:
  \<open>split_with (default\<lparr>sort' := True\<rparr>) (Str (str ''b '' @ [10])) =
     Inr (Terms (ListOf [[10], str ''b''])) \<and>
   split_with (default\<lparr>sort' := True\<rparr>) (Str (join 32 [[10], str ''b''])) =
     Inr (Terms (ListOf [str ''b'']))\<close>
  by (simp add: split_with_def build_simps split_simps match_simps)

text \<open>
  C7, amended. For every configuration of ordinary characters with no markers and with
  \<open>normalize\<close> absent or the identity, and every text with no quote character: when the
  terms are not sorted, or the text has no white space other than separator characters,
  the terms of the text, joined with the first separator, have the same terms again, in
  the same order, and \<open>split\<close> returns for the joined text what it returns for the text.
\<close>

theorem round_trip:
  assumes "init c = Inr self" and "ordinary c"
    and "group_list (groups c) = []"
    and "normalize c = None \<or> normalize c = Some Some"
    and "separators c = c0 # others"
    and "set v \<inter> set (quote_list (quotes c)) = {}"
    and "\<not> sort' c \<or> (\<forall>x \<in> set v. isspace x \<longrightarrow> x \<in> set (separators c))"
    and "terms self v = Inr ts"
  shows "terms self (join c0 ts) = Inr ts \<and> split self (Str (join c0 ts)) = split self (Str v)"
proof -
  let ?seps = "separators c" and ?qs = "quote_list (quotes c)"
  let ?rx = "expected ?seps ?qs []"
  let ?T = "findall ?rx v"
  note i = init_regex [OF assms(1,2)]
  have rx: "self_regex self = ?rx" using i(2) assms(3) by simp
  have id: "self_normalize self = None \<or> self_normalize self = Some Some"
    using i(5) assms(4) by simp
  have ts: "ts = (if sort' c then sort ?T else ?T)"
    using assms(8) prepared_identity [OF id, of ?T] i(6) by (simp add: terms_def rx)
  have ok: "tokens_ok ?seps (set v) ?T"
    by (rule findall_tokens_ok [OF assms(6)])
  have "tokens_ok ?seps (set v) ts"
  proof (cases "sort' c")
    case False
    with ts ok show ?thesis by simp
  next
    case True
    with assms(7) have w: "\<And>x. x \<in> set v \<Longrightarrow> isspace x \<Longrightarrow> x \<in> set ?seps" by blast
    have "token_ok ?seps (set v) t \<and> \<not> isspace (hd t)" if "t \<in> set ?T" for t
    proof -
      from tokens_ok_set [OF ok that] have t: "token_ok ?seps (set v) t" .
      then have "hd t \<in> set t" by (simp add: token_ok_def)
      with t have "hd t \<in> set v" "hd t \<notin> set ?seps" unfolding token_ok_def by blast+
      with w t show ?thesis by blast
    qed
    then have "list_all (\<lambda>t. token_ok ?seps (set v) t \<and> \<not> isspace (hd t)) (sort ?T)"
      by (simp add: list_all_iff)
    then show ?thesis using ts True by (simp add: tokens_ok_all)
  qed
  then have f: "findall ?rx (join c0 ts) = ts"
    by (rule findall_join) (use assms(5,6) in auto)
  have "sort ts = ts" if "sort' c"
    using that ts by (simp add: sorted_sort_id)
  then have "terms self (join c0 ts) = Inr ts"
    using prepared_identity [OF id, of ts] i(6) by (simp add: terms_def rx f)
  then show ?thesis using assms(8) by (simp add: split_def)
qed

definition sorting_object :: processor where
  "sorting_object =
     \<lparr>self_pattern = pattern_of [32, 9] (groups_text []) (quotes_piece (Some [34, 39])),
      self_regex = expected [32, 9] [34, 39] [],
      self_groups = [],
      self_group = GroupFalse,
      self_normalize = None,
      self_sort = True,
      self_result = PyList\<rparr>"

lemma ordinary_sorting: "ordinary (default\<lparr>sort' := True\<rparr>)"
  by (simp add: ordinary_def default_def quote_list_def literal_char_def set_char_def)

lemma init_sorting: "init (default\<lparr>sort' := True\<rparr>) = Inr sorting_object"
  using init_ordinary [OF ordinary_sorting]
  by (simp add: default_def sorting_object_def quote_list_def group_list_def)

theorem round_trip_witness:
  \<open>init (default\<lparr>sort' := True\<rparr>) = Inr sorting_object \<and>
   terms sorting_object (str ''panda  bends'') = Inr [str ''bends'', str ''panda''] \<and>
   terms sorting_object (str ''bends panda'') = Inr [str ''bends'', str ''panda'']\<close>
proof -
  let ?c = "default\<lparr>sort' := True\<rparr>"
  have t: \<open>terms sorting_object (str ''panda  bends'') = Inr [str ''bends'', str ''panda'']\<close>
    by (simp add: sorting_object_def terms_def prepared_def expected_def marker_items_def
        markers_def quoted_def bare_def match_simps)
  have a: "group_list (groups ?c) = []" "normalize ?c = None \<or> normalize ?c = Some Some"
    "separators ?c = 32 # [9]"
    \<open>set (str ''panda  bends'') \<inter> set (quote_list (quotes ?c)) = {}\<close>
    \<open>\<not> sort' ?c \<or> (\<forall>x \<in> set (str ''panda  bends''). isspace x \<longrightarrow> x \<in> set (separators ?c))\<close>
    by (simp_all add: default_def group_list_def quote_list_def str_def isspace_def)
  from round_trip [OF init_sorting ordinary_sorting a t]
  have \<open>terms sorting_object (str ''bends panda'') = Inr [str ''bends'', str ''panda'']\<close>
    by (simp add: str_def)
  with init_sorting t show ?thesis by simp
qed

subsection \<open>C8: a value that is not a string\<close>

lemma getitem_not_type_error: "getitem d k \<noteq> Inl (TypeError t)"
  by (simp add: getitem_def split: option.splits)

lemma append_to_not_type_error: "append_to d k x \<noteq> Inl (TypeError t)"
  by (simp add: append_to_def getitem_def split: option.splits sum.splits)

lemma bucket_not_type_error: "bucket gs d ms \<noteq> Inl (TypeError t)"
proof (induction ms arbitrary: d)
  case Nil
  show ?case by simp
next
  case (Cons i ms)
  show ?case
    using Cons.IH append_to_not_type_error
    by (cases i) (auto split: sum.splits)
qed

lemma normalized_not_type_error: "normalized f ms \<noteq> Inl (TypeError t)"
  by (induction ms) (auto split: option.splits sum.splits)

lemma terms_not_type_error: "terms self v \<noteq> Inl (TypeError t)"
  using normalized_not_type_error
  by (auto simp: terms_def prepared_def split: option.splits sum.splits)

lemma lists_of_not_type_error: "lists_of d gs \<noteq> Inl (TypeError t)"
  using getitem_not_type_error
  by (induction gs) (auto split: sum.splits)

lemma pairs_of_not_type_error: "pairs_of d gs \<noteq> Inl (TypeError t)"
  using getitem_not_type_error
  by (induction gs) (auto split: sum.splits)

lemma grouped_not_invalid_value: "grouped self d \<noteq> Inl (TypeError InvalidValue)"
  using lists_of_not_type_error pairs_of_not_type_error
  by (auto simp: grouped_def split: group_arg.splits sum.splits container.splits)

lemma shaped_not_invalid_value: "shaped self ms \<noteq> Inl (TypeError InvalidValue)"
  using bucket_not_type_error grouped_not_invalid_value
  by (auto simp: shaped_def split: sum.splits)

text \<open>
  C8. Whatever the object, \<open>split\<close> of a value that is not a \<open>str\<close> raises the
  \<open>TypeError\<close> of its first line, whatever the expression and the other fields are (no
  match is looked for), and \<open>split\<close> of a \<open>str\<close> never raises it.
\<close>

theorem split_type_error:
  "split self (NonStr x) = Inl (TypeError InvalidValue) \<and>
   split self (Str v) \<noteq> Inl (TypeError InvalidValue)"
  using terms_not_type_error shaped_not_invalid_value
  by (auto simp: split_def split: sum.splits)

subsection \<open>C9: markers without \<open>None\<close>\<close>

lemma getitem_map_of: "getitem d k = Inr v \<Longrightarrow> map_of d k = Some v"
  by (simp add: getitem_def split: option.splits)

text \<open>
  C9. \<open>key_of gs i\<close> is the marker that starts the term \<open>i\<close>, when it is one of
  \<open>gs\<close>, and \<open>None\<close> otherwise; \<open>stored gs g ts\<close> are the terms of \<open>ts\<close> with the
  key \<open>g\<close>, each without its marker. For every object whose markers are not empty and do
  not include \<open>None\<close>: with \<open>group=dict\<close> the terms that start with no marker are
  returned under the key \<open>None\<close>; the pairs (\<open>group\<close> \<open>False\<close> or \<open>None\<close>) and the
  lists (\<open>group\<close> \<open>list\<close> or \<open>tuple\<close>) are those of the terms that start with a marker:
  the other terms are left out.
\<close>

theorem unmarked_terms:
  assumes "terms self v = Inr ts" and "list_all (\<lambda>i. i \<noteq> []) ts"
    and "self_groups self \<noteq> []" and "None \<notin> set (self_groups self)"
  shows "(self_group self = GroupDict \<longrightarrow>
           (\<exists>d. split self (Str v) = Inr (Mapping d) \<and>
                map_of d None = Some (filter (\<lambda>i. key_of (self_groups self) i = None) ts))) \<and>
         (self_group self = GroupFalse \<or> self_group self = GroupNone \<longrightarrow>
           split self (Str v) =
             Inr (Pairs (collect (self_result self)
               (concat (map (\<lambda>g. map (Pair g)
                  (stored (self_groups self) g
                     (filter (\<lambda>i. key_of (self_groups self) i \<noteq> None) ts)))
                  (self_groups self)))))) \<and>
         (self_group self = GroupType PyList \<longrightarrow>
           split self (Str v) =
             Inr (Sequences (ListOf
               (map (\<lambda>g. stored (self_groups self) g
                     (filter (\<lambda>i. key_of (self_groups self) i \<noteq> None) ts))
                  (self_groups self))))) \<and>
         (self_group self = GroupType PyTuple \<longrightarrow>
           split self (Str v) =
             Inr (Sequences (TupleOf
               (map (\<lambda>g. stored (self_groups self) g
                     (filter (\<lambda>i. key_of (self_groups self) i \<noteq> None) ts))
                  (self_groups self)))))"
proof -
  let ?gs = "self_groups self"
  let ?marked = "filter (\<lambda>i. key_of ?gs i \<noteq> None) ts"
  from shaped_grouped [OF assms(2,3)] obtain d where
    d: "shaped self ts = grouped self d"
       "\<And>k. getitem d k =
          (if k \<in> set ?gs \<or> k = None then Inr (stored ?gs k ts) else Inl KeyError)"
    by blast
  have s: "split self (Str v) = grouped self d"
    using split_terms [OF assms(1)] d(1) by simp
  have g: "getitem d k = Inr (stored ?gs k ?marked)" if "k \<in> set ?gs" for k
  proof -
    from that assms(4) have "k \<noteq> None" by metis
    from stored_marked_only [OF this, of ?gs ts] show ?thesis
      using d(2) [of k] that by simp
  qed
  have n: "map_of d None = Some (filter (\<lambda>i. key_of ?gs i = None) ts)"
    using d(2) [of None] by (simp add: getitem_map_of stored_unmarked)
  have l: "lists_of d ?gs = Inr (map (\<lambda>g. stored ?gs g ?marked) ?gs)"
    by (rule lists_of_known) (rule g)
  have p: "pairs_of d ?gs = Inr (concat (map (\<lambda>g. map (Pair g) (stored ?gs g ?marked)) ?gs))"
    by (rule pairs_of_known) (rule g)
  show ?thesis
    unfolding s using n l p by (auto simp: grouped_def)
qed

text \<open>
  \<open>KeywordProcessor(groups=['+', '-'])\<close> and \<open>cat +dog\<close>: with \<open>group=dict\<close>
  \<open>cat\<close> comes under \<open>None\<close>, and the pairs are \<open>[('+', 'dog')]\<close>.
\<close>

definition marked_object :: processor where
  "marked_object =
     \<lparr>self_pattern =
        pattern_of [32, 9] (groups_text [Some 43, Some 45]) (quotes_piece (Some [34, 39])),
      self_regex = expected [32, 9] [34, 39] [Some 43, Some 45],
      self_groups = [Some 43, Some 45],
      self_group = GroupFalse,
      self_normalize = None,
      self_sort = False,
      self_result = PyList\<rparr>"

lemma init_marked:
  "init (default\<lparr>groups := GroupsList [Some 43, Some 45]\<rparr>) = Inr marked_object"
proof -
  have "ordinary (default\<lparr>groups := GroupsList [Some 43, Some 45]\<rparr>)"
    by (simp add: ordinary_def default_def quote_list_def literal_char_def markers_def
        set_char_def)
  from init_ordinary [OF this] show ?thesis
    by (simp add: default_def marked_object_def quote_list_def group_list_def)
qed

lemmas expected_simps =
  expected_def marker_items_def markers_def quoted_def bare_def

theorem unmarked_terms_witness:
  \<open>init (default\<lparr>groups := GroupsList [Some 43, Some 45]\<rparr>) = Inr marked_object \<and>
   terms marked_object (str ''cat +dog'') = Inr [str ''cat'', str ''+dog''] \<and>
   split marked_object (Str (str ''cat +dog'')) = Inr (Pairs (ListOf [(Some 43, str ''dog'')])) \<and>
   (\<exists>d. split (marked_object\<lparr>self_group := GroupDict\<rparr>) (Str (str ''cat +dog'')) =
           Inr (Mapping d) \<and> map_of d None = Some [str ''cat''])\<close>
proof -
  have t: \<open>terms (marked_object\<lparr>self_group := g\<rparr>) (str ''cat +dog'') =
             Inr [str ''cat'', str ''+dog'']\<close> for g
    by (simp add: marked_object_def terms_def prepared_def expected_simps match_simps)
  have t': \<open>terms marked_object (str ''cat +dog'') = Inr [str ''cat'', str ''+dog'']\<close>
    using t [of GroupFalse] by (simp add: marked_object_def)
  have n: \<open>list_all (\<lambda>i. i \<noteq> []) [str ''cat'', str ''+dog'']\<close> by (simp add: str_def)
  have g: "self_groups (marked_object\<lparr>self_group := g\<rparr>) \<noteq> []"
    "None \<notin> set (self_groups (marked_object\<lparr>self_group := g\<rparr>))" for g
    by (simp_all add: marked_object_def)
  have g': "self_groups marked_object \<noteq> []" "None \<notin> set (self_groups marked_object)"
    by (simp_all add: marked_object_def)
  from unmarked_terms [OF t' n g']
  have \<open>split marked_object (Str (str ''cat +dog'')) = Inr (Pairs (ListOf [(Some 43, str ''dog'')]))\<close>
    by (simp add: marked_object_def stored_def key_of_def stored_as_def str_def)
  moreover from unmarked_terms [OF t [of GroupDict] n g [of GroupDict]]
  have \<open>\<exists>d. split (marked_object\<lparr>self_group := GroupDict\<rparr>) (Str (str ''cat +dog'')) =
           Inr (Mapping d) \<and> map_of d None = Some [str ''cat'']\<close>
    by (simp add: marked_object_def key_of_def str_def)
  ultimately show ?thesis using init_marked t' by simp
qed

subsection \<open>C10: \<open>normalize\<close> comes before the groups\<close>

text \<open>
  C10. For every object with a \<open>normalize\<close> function and with markers: the function is
  applied to the matches of the expression as they are (the tokens, with the marker and
  the quotes they matched with), and the group of a term and what is stored for it
  (\<open>key_of\<close>, \<open>stored\<close>) are read from the term that \<open>normalize\<close> returned, after the
  sort. So a \<open>normalize\<close> that takes a marker off the front of a token, or puts one
  there, changes the group of the term.
\<close>

theorem normalize_before_groups:
  assumes "self_normalize self = Some f"
    and "normalized f (findall (self_regex self) v) = Inr ns"
    and "list_all (\<lambda>i. i \<noteq> []) ns" and "self_groups self \<noteq> []"
  shows "map f (findall (self_regex self) v) = map Some ns \<and>
         (\<exists>d. split self (Str v) = grouped self d \<and>
              (\<forall>k. k \<in> set (self_groups self) \<or> k = None \<longrightarrow>
                   getitem d k =
                     Inr (stored (self_groups self) k (if self_sort self then sort ns else ns))))"
proof -
  let ?ts = "if self_sort self then sort ns else ns"
  have t: "terms self v = Inr ?ts"
    using assms(1,2) by (simp add: terms_def prepared_def)
  have n: "list_all (\<lambda>i. i \<noteq> []) ?ts"
    using assms(3) by (simp add: list_all_iff)
  from shaped_grouped [OF n assms(4)] split_terms [OF t] normalized_map [OF assms(2)]
  show ?thesis by auto
qed

text \<open>
  The search parser with \<open>group=dict\<close> and a \<open>normalize\<close> that strips \<open>+\<close> from the
  front: the token \<open>+cat\<close> comes under \<open>None\<close>, as \<open>cat\<close>. With a \<open>normalize\<close> that
  puts \<open>-\<close> in front, the token \<open>cat\<close> comes under \<open>-\<close>.
\<close>

theorem normalize_before_groups_witness:
  \<open>(\<exists>d. split (search_object\<lparr>self_group := GroupDict,
                   self_normalize := Some (\<lambda>s. Some (dropWhile (\<lambda>c. c = 43) s))\<rparr>)
            (Str (str ''+cat -dog'')) = Inr (Mapping d) \<and>
         getitem d None = Inr [str ''cat''] \<and> getitem d (Some 43) = Inr [] \<and>
         getitem d (Some 45) = Inr [str ''dog'']) \<and>
    (\<exists>d. split (search_object\<lparr>self_group := GroupDict,
                   self_normalize := Some (\<lambda>s. Some (45 # s))\<rparr>)
            (Str (str ''cat'')) = Inr (Mapping d) \<and>
         getitem d None = Inr [] \<and> getitem d (Some 45) = Inr [str ''cat''])\<close>
proof -
  let ?strip = "\<lambda>s. Some (dropWhile (\<lambda>c. c = 43) s)"
  let ?dash = "\<lambda>s::pystr. Some (45 # s)"
  let ?self1 = "search_object\<lparr>self_group := GroupDict, self_normalize := Some ?strip\<rparr>"
  let ?self2 = "search_object\<lparr>self_group := GroupDict, self_normalize := Some ?dash\<rparr>"
  have f1: \<open>findall (self_regex ?self1) (str ''+cat -dog'') = [str ''+cat'', str ''-dog'']\<close>
    by (simp add: search_object_def match_simps)
  have f2: \<open>findall (self_regex ?self2) (str ''cat'') = [str ''cat'']\<close>
    by (simp add: search_object_def match_simps)
  have n1: \<open>normalized ?strip (findall (self_regex ?self1) (str ''+cat -dog'')) =
            Inr [str ''cat'', str ''-dog'']\<close>
    unfolding f1 by (simp add: str_def)
  have n2: \<open>normalized ?dash (findall (self_regex ?self2) (str ''cat'')) = Inr [45 # str ''cat'']\<close>
    unfolding f2 by simp
  have a: "self_normalize ?self1 = Some ?strip" "self_normalize ?self2 = Some ?dash"
    "self_groups ?self1 \<noteq> []" "self_groups ?self2 \<noteq> []"
    by (simp_all add: search_object_def)
  have e: \<open>list_all (\<lambda>i. i \<noteq> []) [str ''cat'', str ''-dog'']\<close>
    \<open>list_all (\<lambda>i. i \<noteq> []) [45 # str ''cat'']\<close>
    by (simp_all add: str_def)
  from normalize_before_groups [OF a(1) n1 e(1) a(3)]
  have \<open>\<exists>d. split ?self1 (Str (str ''+cat -dog'')) = Inr (Mapping d) \<and>
         getitem d None = Inr [str ''cat''] \<and> getitem d (Some 43) = Inr [] \<and>
         getitem d (Some 45) = Inr [str ''dog'']\<close>
    by (auto simp: grouped_def search_object_def stored_def key_of_def stored_as_def str_def)
  moreover from normalize_before_groups [OF a(2) n2 e(2) a(4)]
  have \<open>\<exists>d. split ?self2 (Str (str ''cat'')) = Inr (Mapping d) \<and>
         getitem d None = Inr [] \<and> getitem d (Some 45) = Inr [str ''cat'']\<close>
    by (auto simp: grouped_def search_object_def stored_def key_of_def stored_as_def str_def)
  ultimately show ?thesis by blast
qed

end
